theory Spec2Isabelle
  imports Main
begin

section \<open>Data model of the scheduler (solver-next/scheduler.go)\<close>

text \<open>
  Go pointers are modelled as addresses into explicit stores: an \<open>*edge\<close> is an
  address into \<open>edges\<close>, an \<open>*edgePipe\<close> an address into \<open>pipes\<close>, a
  \<open>*dispatcher\<close> an address into \<open>dispatchers\<close>. A nil pointer is \<open>None\<close>.
  Allocation takes the next unused address (\<open>npipes\<close>, \<open>ndispatchers\<close>).
\<close>

type_synonym eid = nat
type_synonym pid = nat
type_synonym did = nat

type_synonym CacheKey = string
type_synonym ExportableCacheKey = string

subsection \<open>Pipes\<close>

datatype edgeStatusType = edgeStatusInitial | edgeStatusComplete

record edgeRequest =
  desiredState :: edgeStatusType

record Request =
  Payload :: "edgeRequest option"
  Canceled :: bool

record Status =
  Completed :: bool
  Err :: "string option"

text \<open>
  The three closures that scheduler.go installs in the callback slots of a pipe:
  \<open>signalFrom\<close> is \<open>s.signal(p.From)\<close>, \<open>signalTarget\<close> is \<open>s.signal(p.Target)\<close>,
  \<open>releaseWaiter\<close> is the closure of \<open>build\<close> that receives and closes \<open>wait\<close>.
  The pipe package runs \<open>OnReceiveCompletion\<close> when the receiver cancels, within
  the call of \<open>Cancel\<close>. It runs \<open>OnSendCompletion\<close> when the sender posts an
  update, which happens in \<open>unpark\<close> or on another goroutine and is not a step of
  the functions below.
\<close>

datatype callback = signalFrom | signalTarget | releaseWaiter

text \<open>
  Modelled from the spec: package \<open>pipe\<close> is not part of the source at hand. A pipe
  carries its request, the status seen on the sender side, the status seen on the
  receiver side, an update the sender has posted and the receiver has not yet
  consumed, and the two callback slots.
\<close>

record Pipe =
  req :: Request
  SenderStatus :: Status
  ReceiverStatus :: Status
  pending :: "Status option"
  OnSendCompletion :: "callback option"
  OnReceiveCompletion :: "callback option"

text \<open>
  \<open>edgePipe\<close> embeds \<open>*pipe.Pipe\<close> and adds \<open>Target\<close> and \<open>From\<close>. Its mutex
  \<open>mu\<close> is held only for the duration of one rewrite of these two fields or of one
  callback; in this sequential model it is free whenever the scheduler takes it, so
  \<open>Lock\<close> and \<open>Unlock\<close> leave no trace in the state.
\<close>

record edgePipe = Pipe +
  Target :: "eid option"
  From :: "eid option"

text \<open>Modelled from the spec: \<open>pipe.New(req)\<close>, a pipe with both sides pending.\<close>

definition pipe_New :: "Request \<Rightarrow> eid option \<Rightarrow> eid option \<Rightarrow> edgePipe" where
  "pipe_New r target from =
     \<lparr>req = r,
      SenderStatus = \<lparr>Completed = False, Err = None\<rparr>,
      ReceiverStatus = \<lparr>Completed = False, Err = None\<rparr>,
      pending = None,
      OnSendCompletion = None,
      OnReceiveCompletion = None,
      Target = target,
      From = from\<rparr>"

text \<open>
  Modelled from the spec: \<open>Receiver.Receive()\<close> consumes any pending update and
  returns whether an update was observed since the last call; the update becomes
  the status that \<open>Receiver.Status()\<close> reports.
\<close>

definition Receive :: "edgePipe \<Rightarrow> bool \<times> edgePipe" where
  "Receive p =
     (case pending p of
        None \<Rightarrow> (False, p)
      | Some st \<Rightarrow> (True, p\<lparr>ReceiverStatus := st, pending := None\<rparr>))"

text \<open>The request of a pipe marked canceled.\<close>

definition mark_canceled :: "edgePipe \<Rightarrow> edgePipe" where
  "mark_canceled p = p\<lparr>req := (req p)\<lparr>Canceled := True\<rparr>\<rparr>"

subsection \<open>Edges\<close>

record VertexOptions =
  IgnoreCache :: bool

record Vertex =
  Name :: string
  Options :: VertexOptions

record Edge =
  Index :: nat
  Vertex :: Vertex

text \<open>
  A panic (the scheduler's own or one of the Go runtime) ends the process; an
  error value is returned to the caller.
\<close>

datatype error = Panic string | InvalidRequest Edge

record CacheKeyWithSelector =
  Selector :: string
  CacheKey :: ExportableCacheKey

record expDep =
  index :: nat
  cacheKey :: CacheKeyWithSelector

text \<open>
  A dependency slot of an edge, as far as \<open>mergeTo\<close> reads it. \<open>result\<close> holds
  the value of \<open>d.result.CacheKey()\<close> when \<open>d.result\<close> is not nil.
\<close>

record dep =
  keys :: "ExportableCacheKey list"
  slowCacheKey :: "ExportableCacheKey option"
  result :: "ExportableCacheKey option"

text \<open>\<open>Deps\<close> lists \<open>cacheMap.Deps[i].Selector\<close> for each \<open>i\<close>.\<close>

record CacheMap =
  Deps :: "string list"

record edge =
  edge :: Edge
  deps :: "dep list"
  cacheMap :: "CacheMap option"
  secondaryExporters :: "expDep list"
  hasActiveOutgoing :: bool
  keysDidChange :: bool

subsection \<open>Scheduler state\<close>

record dispatcher =
  d_next :: "did option"
  d_e :: eid

text \<open>
  The fields of \<open>Scheduler\<close> (\<open>next\<close> and \<open>last\<close> are \<open>s_next\<close> and \<open>s_last\<close>;
  \<open>cond\<close> is the flag of the stateful condition), followed by the stores of the
  objects it points to. \<open>ef\<close> and \<open>edgeIndex\<close> are modelled from the spec: the
  edge factory resolves descriptors to edges and \<open>SetEdge\<close> installs a redirect;
  \<open>edgeIndex\<close> is the registry behind \<open>e.index\<close>.
\<close>

record state =
  waitq :: "eid set"
  s_next :: "did option"
  s_last :: "did option"
  stopped :: bool
  cond :: bool
  incoming :: "eid \<rightharpoonup> pid list"
  outgoing :: "eid \<rightharpoonup> pid list"
  ef :: "Edge \<rightharpoonup> eid"
  dispatchers :: "did \<Rightarrow> dispatcher"
  ndispatchers :: nat
  pipes :: "pid \<Rightarrow> edgePipe"
  npipes :: nat
  edges :: "eid \<Rightarrow> edge"
  edgeIndex :: "CacheKey \<rightharpoonup> eid"

text \<open>Reading a Go map of slices: a missing key yields the nil slice.\<close>

definition lookup :: "(eid \<rightharpoonup> pid list) \<Rightarrow> eid \<Rightarrow> pid list" where
  "lookup m e = (case m e of None \<Rightarrow> [] | Some ps \<Rightarrow> ps)"

text \<open>
  \<open>NewScheduler\<close>: empty maps and an empty queue. The stores of edges, pipes and
  the factory are whatever the caller's graph holds.
\<close>

definition NewScheduler ::
  "(Edge \<rightharpoonup> eid) \<Rightarrow> (eid \<Rightarrow> edge) \<Rightarrow> (pid \<Rightarrow> edgePipe) \<Rightarrow> (did \<Rightarrow> dispatcher) \<Rightarrow> state" where
  "NewScheduler f es ps ds =
     \<lparr>waitq = {}, s_next = None, s_last = None, stopped = False, cond = False,
      incoming = Map.empty, outgoing = Map.empty, ef = f,
      dispatchers = ds, ndispatchers = 0, pipes = ps, npipes = 0,
      edges = es, edgeIndex = Map.empty\<rparr>"

section \<open>The dispatcher queue\<close>

text \<open>\<open>signal\<close> (lines 181-195).\<close>

definition signal :: "eid \<Rightarrow> state \<Rightarrow> state" where
  "signal e s =
     (if e \<in> waitq s then s
      else
        let d = ndispatchers s;
            s1 = s\<lparr>dispatchers := (dispatchers s)(d := \<lparr>d_next = None, d_e = e\<rparr>),
                   ndispatchers := Suc d\<rparr>;
            s2 = (case s_last s1 of
                    None \<Rightarrow> s1\<lparr>s_next := Some d\<rparr>
                  | Some l \<Rightarrow>
                      s1\<lparr>dispatchers :=
                           (dispatchers s1)(l := (dispatchers s1 l)\<lparr>d_next := Some d\<rparr>)\<rparr>)
        in s2\<lparr>s_last := Some d, waitq := insert e (waitq s2), cond := True\<rparr>)"

text \<open>The dequeue of the run loop (lines 83-92).\<close>

definition dequeue :: "state \<Rightarrow> eid option \<times> state" where
  "dequeue s =
     (case s_next s of
        None \<Rightarrow> (None, s)
      | Some l \<Rightarrow>
          let s1 = (if Some l = s_last s then s\<lparr>s_last := None\<rparr> else s);
              s2 = s1\<lparr>s_next := d_next (dispatchers s1 l)\<rparr>
          in (Some (d_e (dispatchers s2 l)),
              s2\<lparr>waitq := waitq s2 - {d_e (dispatchers s2 l)}\<rparr>))"

text \<open>
  The linked list as the code can walk it: \<open>q_nodes h n p\<close> follows \<open>next\<close>
  pointers from \<open>p\<close> for at most \<open>n\<close> nodes.
\<close>

fun q_nodes :: "(did \<Rightarrow> dispatcher) \<Rightarrow> nat \<Rightarrow> did option \<Rightarrow> did list" where
  "q_nodes h 0 p = []"
| "q_nodes h (Suc n) None = []"
| "q_nodes h (Suc n) (Some a) = a # q_nodes h n (d_next (h a))"

text \<open>\<open>q_path h p as\<close>: following \<open>next\<close> from \<open>p\<close> visits \<open>as\<close> and then nil.\<close>

fun q_path :: "(did \<Rightarrow> dispatcher) \<Rightarrow> did option \<Rightarrow> did list \<Rightarrow> bool" where
  "q_path h p [] = (p = None)"
| "q_path h p (a # as) = (p = Some a \<and> q_path h (d_next (h a)) as)"

definition nodes :: "state \<Rightarrow> did list" where
  "nodes s = q_nodes (dispatchers s) (ndispatchers s) (s_next s)"

text \<open>The edges waiting for a turn, head first.\<close>

definition queue :: "state \<Rightarrow> eid list" where
  "queue s = map (\<lambda>a. d_e (dispatchers s a)) (nodes s)"

text \<open>
  Well-formedness of the queue: the nodes reachable from \<open>next\<close> form a nil-terminated
  list of allocated nodes, \<open>last\<close> is its last node (nil when it is empty), no edge
  occurs twice, and \<open>waitq\<close> is the set of the queued edges.
\<close>

definition queue_inv :: "state \<Rightarrow> bool" where
  "queue_inv s =
     (q_path (dispatchers s) (s_next s) (nodes s) \<and>
      list_all (\<lambda>a. a < ndispatchers s) (nodes s) \<and>
      s_last s = (if nodes s = [] then None else Some (last (nodes s))) \<and>
      distinct (queue s) \<and>
      waitq s = set (queue s))"


section \<open>Pipes between edges\<close>

text \<open>
  Modelled from the spec: the \<open>EdgeFactory\<close> interface. \<open>GetEdge\<close> resolves a
  descriptor to an edge or nil; \<open>SetEdge\<close> installs a redirect so that later lookups
  of the descriptor resolve to the given edge.
\<close>

definition GetEdge :: "Edge \<Rightarrow> state \<Rightarrow> eid option" where
  "GetEdge ee s = ef s ee"

definition SetEdge :: "Edge \<Rightarrow> eid \<Rightarrow> state \<Rightarrow> state" where
  "SetEdge ee e s = s\<lparr>ef := (ef s)(ee \<mapsto> e)\<rparr>"

text \<open>
  Modelled from the spec: \<open>index.LoadOrStore(key, edge)\<close> is an atomic
  compare-and-insert on the registry; it yields an edge only when a different edge
  was already registered for the key, and registers the given edge when none was.
\<close>

definition LoadOrStore :: "CacheKey \<Rightarrow> eid \<Rightarrow> state \<Rightarrow> eid option \<times> state" where
  "LoadOrStore k e s =
     (case edgeIndex s k of
        None \<Rightarrow> (None, s\<lparr>edgeIndex := (edgeIndex s)(k \<mapsto> e)\<rparr>)
      | Some orig \<Rightarrow> if orig = e then (None, s) else (Some orig, s))"

text \<open>\<open>newPipe\<close> (lines 235-258). The result is the address of the new pipe.\<close>

definition newPipe :: "eid \<Rightarrow> eid option \<Rightarrow> Request \<Rightarrow> state \<Rightarrow> pid \<times> state" where
  "newPipe target from r s =
     (let p = npipes s;
          s1 = s\<lparr>pipes := (pipes s)(p := pipe_New r (Some target) from), npipes := Suc p\<rparr>;
          s2 = signal target s1;
          s3 = (case from of
                  None \<Rightarrow> s2
                | Some f \<Rightarrow>
                    s2\<lparr>pipes := (pipes s2)(p := (pipes s2 p)\<lparr>OnSendCompletion := Some signalFrom\<rparr>),
                       outgoing := (outgoing s2)(f \<mapsto> lookup (outgoing s2) f @ [p])\<rparr>);
          s4 = s3\<lparr>incoming := (incoming s3)(target \<mapsto> lookup (incoming s3) target @ [p])\<rparr>
      in (p, s4\<lparr>pipes := (pipes s4)(p := (pipes s4 p)\<lparr>OnReceiveCompletion := Some signalTarget\<rparr>)\<rparr>))"

text \<open>
  \<open>newRequestWithFunc\<close> (lines 261-275). The asynchronous function itself runs on
  another goroutine; its outcome reaches the scheduler as a pending update of the
  pipe.
\<close>

definition newRequestWithFunc :: "eid \<Rightarrow> state \<Rightarrow> pid \<times> state" where
  "newRequestWithFunc e s =
     (let p = npipes s;
          pp = (pipe_New \<lparr>Payload = None, Canceled = False\<rparr> None (Some e))
                 \<lparr>OnSendCompletion := Some signalFrom\<rparr>
      in (p, s\<lparr>pipes := (pipes s)(p := pp), npipes := Suc p,
               outgoing := (outgoing s)(e \<mapsto> lookup (outgoing s) e @ [p])\<rparr>))"

text \<open>
  Running a callback slot of pipe \<open>p\<close>. The closures read \<open>p.From\<close> and
  \<open>p.Target\<close> when they run; they are installed only where that edge is not nil.
  The closure of \<open>build\<close> receives on the pipe (the release of the waiting caller
  is outside the scheduler state).
\<close>

definition run_callback :: "callback option \<Rightarrow> pid \<Rightarrow> state \<Rightarrow> state" where
  "run_callback cb p s =
     (case cb of
        None \<Rightarrow> s
      | Some signalFrom \<Rightarrow> (case From (pipes s p) of None \<Rightarrow> s | Some f \<Rightarrow> signal f s)
      | Some signalTarget \<Rightarrow> (case Target (pipes s p) of None \<Rightarrow> s | Some t \<Rightarrow> signal t s)
      | Some releaseWaiter \<Rightarrow> s\<lparr>pipes := (pipes s)(p := snd (Receive (pipes s p)))\<rparr>)"

text \<open>
  Modelled from the spec: \<open>Receiver.Cancel()\<close> marks the request canceled and is
  idempotent. A cancel that takes effect is delivered to the other side of the
  pipe, which runs the \<open>OnReceiveCompletion\<close> slot; the closure that \<open>newPipe\<close>
  puts there locks the mutex of the pipe, which is why \<open>mergeTo\<close> releases it
  before it cancels.
\<close>

definition Cancel :: "pid \<Rightarrow> state \<Rightarrow> state" where
  "Cancel p s =
     (if Canceled (req (pipes s p)) then s
      else
        let s1 = s\<lparr>pipes := (pipes s)(p := mark_canceled (pipes s p))\<rparr>
        in run_callback (OnReceiveCompletion (pipes s1 p)) p s1)"

text \<open>The pipe factory handed to \<open>unpark\<close> (lines 329-347).\<close>

definition NewInputRequest :: "eid \<Rightarrow> Edge \<Rightarrow> edgeRequest \<Rightarrow> state \<Rightarrow> error + pid \<times> state" where
  "NewInputRequest e ee r s =
     (case GetEdge ee s of
        None \<Rightarrow> Inl (Panic ''failed to get edge'')
      | Some target \<Rightarrow> Inr (newPipe target (Some e) \<lparr>Payload = Some r, Canceled = False\<rparr> s))"

definition NewFuncRequest :: "eid \<Rightarrow> state \<Rightarrow> pid \<times> state" where
  "NewFuncRequest e s = newRequestWithFunc e s"

text \<open>
  \<open>build\<close> (lines 198-216): the part that runs under the scheduler's lock. On
  success the caller goes on to wait on the root pipe whose address is returned.
\<close>

definition build :: "Edge \<Rightarrow> state \<Rightarrow> (error + pid) \<times> state" where
  "build ee s =
     (case GetEdge ee s of
        None \<Rightarrow> (Inl (InvalidRequest ee), s)
      | Some e \<Rightarrow>
          let (p, s1) = newPipe e None
                          \<lparr>Payload = Some \<lparr>desiredState = edgeStatusComplete\<rparr>, Canceled = False\<rparr> s
          in (Inr p,
              s1\<lparr>pipes := (pipes s1)(p := (pipes s1 p)\<lparr>OnSendCompletion := Some releaseWaiter\<rparr>)\<rparr>))"

section \<open>Merging edges\<close>

text \<open>The loop of lines 282-287, over the slice read from \<open>incoming[src]\<close>.\<close>

fun merge_incoming :: "eid \<Rightarrow> pid list \<Rightarrow> state \<Rightarrow> state" where
  "merge_incoming target [] s = s"
| "merge_incoming target (inc # incs) s =
     merge_incoming target incs
       (s\<lparr>pipes := (pipes s)(inc := (pipes s inc)\<lparr>Target := Some target\<rparr>),
          incoming := (incoming s)(target \<mapsto> lookup (incoming s) target @ [inc])\<rparr>)"

text \<open>The loop of lines 289-295, over the slice read from \<open>outgoing[src]\<close>.\<close>

fun merge_outgoing :: "eid \<Rightarrow> pid list \<Rightarrow> state \<Rightarrow> state" where
  "merge_outgoing target [] s = s"
| "merge_outgoing target (out # outs) s =
     (let s1 = s\<lparr>pipes := (pipes s)(out := (pipes s out)\<lparr>From := Some target\<rparr>),
                 outgoing := (outgoing s)(target \<mapsto> lookup (outgoing s) target @ [out])\<rparr>
      in merge_outgoing target outs (Cancel out s1))"

text \<open>
  \<open>src.cacheMap.Deps[i].Selector\<close>: a nil \<open>cacheMap\<close> or an index out of range is
  a runtime panic.
\<close>

definition dep_selector :: "edge \<Rightarrow> nat \<Rightarrow> error + string" where
  "dep_selector src i =
     (case cacheMap src of
        None \<Rightarrow> Inl (Panic ''invalid memory address or nil pointer dereference'')
      | Some m \<Rightarrow>
          if i < length (Deps m) then Inr (Deps m ! i) else Inl (Panic ''index out of range''))"

text \<open>The inner loop over \<open>d.keys\<close> (lines 302-304).\<close>

fun export_keys :: "edge \<Rightarrow> nat \<Rightarrow> ExportableCacheKey list \<Rightarrow> expDep list \<Rightarrow> error + expDep list" where
  "export_keys src i [] acc = Inr acc"
| "export_keys src i (k # ks) acc =
     (case dep_selector src i of
        Inl err \<Rightarrow> Inl err
      | Inr sel \<Rightarrow>
          export_keys src i ks
            (acc @ [\<lparr>index = i, cacheKey = \<lparr>Selector = sel, CacheKey = k\<rparr>\<rparr>]))"

text \<open>
  One turn of the loop over \<open>src.deps\<close> (lines 302-310). The entry of the
  slow-cache key is built without a \<open>Selector\<close> field, which leaves it the empty
  digest.
\<close>

definition export_dep :: "edge \<Rightarrow> nat \<Rightarrow> dep \<Rightarrow> expDep list \<Rightarrow> error + expDep list" where
  "export_dep src i d acc =
     (case export_keys src i (keys d) acc of
        Inl err \<Rightarrow> Inl err
      | Inr acc1 \<Rightarrow>
          let acc2 = (case slowCacheKey d of
                        None \<Rightarrow> acc1
                      | Some k \<Rightarrow>
                          acc1 @ [\<lparr>index = i, cacheKey = \<lparr>Selector = [], CacheKey = k\<rparr>\<rparr>])
          in (case result d of
                None \<Rightarrow> Inr acc2
              | Some k \<Rightarrow>
                  (case dep_selector src i of
                     Inl err \<Rightarrow> Inl err
                   | Inr sel \<Rightarrow>
                       Inr (acc2 @ [\<lparr>index = i, cacheKey = \<lparr>Selector = sel, CacheKey = k\<rparr>\<rparr>]))))"

text \<open>The loop over \<open>src.deps\<close> (lines 301-311), \<open>i\<close> counting from the given index.\<close>

fun export_deps :: "edge \<Rightarrow> nat \<Rightarrow> dep list \<Rightarrow> expDep list \<Rightarrow> error + expDep list" where
  "export_deps src i [] acc = Inr acc"
| "export_deps src i (d # ds) acc =
     (case export_dep src i d acc of
        Inl err \<Rightarrow> Inl err
      | Inr acc1 \<Rightarrow> export_deps src (Suc i) ds acc1)"

text \<open>\<open>mergeTo\<close> (lines 278-316).\<close>

definition mergeTo :: "eid \<Rightarrow> eid \<Rightarrow> state \<Rightarrow> error + bool \<times> state" where
  "mergeTo target src s =
     (if \<not> IgnoreCache (Options (Vertex (edge (edges s target)))) \<and>
         IgnoreCache (Options (Vertex (edge (edges s src))))
      then Inr (False, s)
      else
        let s1 = merge_incoming target (lookup (incoming s) src) s;
            s2 = merge_outgoing target (lookup (outgoing s1) src) s1;
            s3 = s2\<lparr>incoming := (incoming s2)(src := None),
                    outgoing := (outgoing s2)(src := None)\<rparr>;
            s4 = signal target s3
        in (case export_deps (edges s4 src) 0 (deps (edges s4 src))
                   (secondaryExporters (edges s4 target)) of
              Inl err \<Rightarrow> Inl err
            | Inr exps \<Rightarrow>
                Inr (True,
                     s4\<lparr>edges := (edges s4)(target := (edges s4 target)\<lparr>secondaryExporters := exps\<rparr>)\<rparr>)))"


section \<open>The dispatch step\<close>

text \<open>
  The edge's own logic lives outside scheduler.go and is a parameter: \<open>unpark\<close>
  gets the edge, the snapshot of incoming senders, the updated receivers, the
  snapshot of outgoing receivers and, through its pipe factory, the scheduler
  state; it may panic. \<open>currentIndexKey\<close> yields the edge's index key or nil.
\<close>

record ext =
  unpark :: "eid \<Rightarrow> pid list \<Rightarrow> pid list \<Rightarrow> pid list \<Rightarrow> state \<Rightarrow> error + state"
  currentIndexKey :: "eid \<Rightarrow> state \<Rightarrow> CacheKey option"

text \<open>The loop over the snapshot \<open>out\<close> (lines 114-121).\<close>

fun receive_all :: "eid \<Rightarrow> pid list \<Rightarrow> pid list \<Rightarrow> state \<Rightarrow> pid list \<times> state" where
  "receive_all e [] updates s = (updates, s)"
| "receive_all e (p # out) updates s =
     (let (ok, p') = Receive (pipes s p);
          s1 = s\<lparr>pipes := (pipes s)(p := p')\<rparr>;
          updates1 = (if ok then updates @ [p] else updates);
          s2 = (if \<not> Completed (ReceiverStatus (pipes s1 p))
                then s1\<lparr>edges := (edges s1)(e := (edges s1 e)\<lparr>hasActiveOutgoing := True\<rparr>)\<rparr>
                else s1)
      in receive_all e out updates1 s2)"

text \<open>
  Lines 103-121: the snapshots \<open>inc\<close> and \<open>out\<close>, the reset of
  \<open>hasActiveOutgoing\<close> and the receive loop. The result is what \<open>unpark\<close> is
  called with: \<open>(inc, updates, out)\<close> and the state.
\<close>

definition dispatch_receive :: "eid \<Rightarrow> state \<Rightarrow> pid list \<times> pid list \<times> pid list \<times> state" where
  "dispatch_receive e s =
     (let inc = lookup (incoming s) e;
          out = lookup (outgoing s) e;
          s1 = s\<lparr>edges := (edges s)(e := (edges s e)\<lparr>hasActiveOutgoing := False\<rparr>)\<rparr>;
          (updates, s2) = receive_all e out [] s1
      in (inc, updates, out, s2))"

text \<open>The loops of lines 130-134 and 142-146.\<close>

fun open_incoming :: "(pid \<Rightarrow> edgePipe) \<Rightarrow> pid list \<Rightarrow> pid list \<Rightarrow> pid list" where
  "open_incoming ps [] openIncoming = openIncoming"
| "open_incoming ps (r # rs) openIncoming =
     open_incoming ps rs
       (if \<not> Completed (SenderStatus (ps r)) then openIncoming @ [r] else openIncoming)"

fun open_outgoing :: "(pid \<Rightarrow> edgePipe) \<Rightarrow> pid list \<Rightarrow> pid list \<Rightarrow> pid list" where
  "open_outgoing ps [] openOutgoing = openOutgoing"
| "open_outgoing ps (r # rs) openOutgoing =
     open_outgoing ps rs
       (if \<not> Completed (ReceiverStatus (ps r)) then openOutgoing @ [r] else openOutgoing)"

text \<open>Lines 129-151: the result is \<open>(openIncoming, openOutgoing)\<close> and the state.\<close>

definition dispatch_prune :: "eid \<Rightarrow> state \<Rightarrow> pid list \<times> pid list \<times> state" where
  "dispatch_prune e s =
     (let openIncoming = open_incoming (pipes s) (lookup (incoming s) e) [];
          s1 = (if length openIncoming > 0
                then s\<lparr>incoming := (incoming s)(e \<mapsto> openIncoming)\<rparr>
                else s\<lparr>incoming := (incoming s)(e := None)\<rparr>);
          openOutgoing = open_outgoing (pipes s1) (lookup (outgoing s1) e) [];
          s2 = (if length openOutgoing > 0
                then s1\<lparr>outgoing := (outgoing s1)(e \<mapsto> openOutgoing)\<rparr>
                else s1\<lparr>outgoing := (outgoing s1)(e := None)\<rparr>)
      in (openIncoming, openOutgoing, s2))"

text \<open>Lines 154-166.\<close>

definition dispatch_merge :: "ext \<Rightarrow> eid \<Rightarrow> state \<Rightarrow> error + state" where
  "dispatch_merge x e s =
     (if keysDidChange (edges s e) then
        (case (case currentIndexKey x e s of
                 None \<Rightarrow> Inr s
               | Some k \<Rightarrow>
                   (case LoadOrStore k e s of
                      (None, s1) \<Rightarrow> Inr s1
                    | (Some origEdge, s1) \<Rightarrow>
                        (case mergeTo origEdge e s1 of
                           Inl err \<Rightarrow> Inl err
                         | Inr (merged, s2) \<Rightarrow>
                             if merged then Inr (SetEdge (edge (edges s2 e)) origEdge s2)
                             else Inr s2))) of
           Inl err \<Rightarrow> Inl err
         | Inr s3 \<Rightarrow> Inr (s3\<lparr>edges := (edges s3)(e := (edges s3 e)\<lparr>keysDidChange := False\<rparr>)\<rparr>))
      else Inr s)"

text \<open>Lines 129-177: what \<open>dispatch\<close> does once \<open>unpark\<close> has returned.\<close>

definition dispatch_finish :: "ext \<Rightarrow> eid \<Rightarrow> state \<Rightarrow> error + state" where
  "dispatch_finish x e s =
     (let (openIncoming, openOutgoing, s1) = dispatch_prune e s
      in (case dispatch_merge x e s1 of
            Inl err \<Rightarrow> Inl err
          | Inr s2 \<Rightarrow>
              if length openIncoming > 0 \<and> length openOutgoing = 0
              then Inl (Panic ''invalid dispatch: return leaving incoming open'')
              else if length openIncoming = 0 \<and> length openOutgoing > 0
              then Inl (Panic ''invalid dispatch: return leaving outgoing open'')
              else Inr s2))"

text \<open>\<open>dispatch\<close> (lines 102-178).\<close>

definition dispatch :: "ext \<Rightarrow> eid \<Rightarrow> state \<Rightarrow> error + state" where
  "dispatch x e s =
     (let (inc, updates, out, s1) = dispatch_receive e s
      in (case unpark x e inc updates out s1 of
            Inl err \<Rightarrow> Inl err
          | Inr s2 \<Rightarrow> dispatch_finish x e s2))"

section \<open>The run loop\<close>

text \<open>
  One turn of \<open>loop\<close> (lines 76-98): it returns once stopped, waits on the
  condition when the queue is empty, and dispatches the head otherwise. A panic of
  the dispatch ends the process.
\<close>

datatype turn = Returned | Waited state | Dispatched state | Crashed error

definition loop_turn :: "ext \<Rightarrow> state \<Rightarrow> turn" where
  "loop_turn x s =
     (if stopped s then Returned
      else (case dequeue s of
              (None, s1) \<Rightarrow> Waited (s1\<lparr>cond := False\<rparr>)
            | (Some e, s1) \<Rightarrow>
                (case dispatch x e s1 of
                   Inl err \<Rightarrow> Crashed err
                 | Inr s2 \<Rightarrow> Dispatched s2)))"

section \<open>Intermediate states and expected results\<close>

text \<open>The state after one turn of the receive loop, on pipe \<open>p\<close>.\<close>

definition received :: "eid \<Rightarrow> pid \<Rightarrow> state \<Rightarrow> state" where
  "received e p s =
     s\<lparr>pipes := (pipes s)(p := snd (Receive (pipes s p))),
       edges := (if \<not> Completed (ReceiverStatus (snd (Receive (pipes s p))))
                 then (edges s)(e := (edges s e)\<lparr>hasActiveOutgoing := True\<rparr>)
                 else edges s)\<rparr>"

text \<open>
  \<open>queue_extends s s'\<close>: the queue of \<open>s'\<close> is well formed and is the queue of
  \<open>s\<close> with edges added at the tail.
\<close>

definition queue_extends :: "state \<Rightarrow> state \<Rightarrow> bool" where
  "queue_extends s s' = (queue_inv s' \<and> (\<exists>ys. queue s' = queue s @ ys))"

text \<open>The state of \<open>mergeTo\<close> after line 298: both loops done, \<open>src\<close> deleted.\<close>

definition rewired :: "eid \<Rightarrow> eid \<Rightarrow> state \<Rightarrow> state" where
  "rewired target src s =
     (let s1 = merge_incoming target (lookup (incoming s) src) s;
          s2 = merge_outgoing target (lookup (outgoing s1) src) s1
      in s2\<lparr>incoming := (incoming s2)(src := None),
            outgoing := (outgoing s2)(src := None)\<rparr>)"

text \<open>
  What a merge is to add to the exporters of the target, written as lists: the
  selector of dependency \<open>i\<close> (empty where the code would panic), the entries of
  one dependency, and those of a list of dependencies numbered from \<open>i\<close>. A
  dependency with a direct key or a result is one whose entries read the selector.
\<close>

definition selector_of :: "edge \<Rightarrow> nat \<Rightarrow> string" where
  "selector_of src i = (case dep_selector src i of Inl err \<Rightarrow> [] | Inr sel \<Rightarrow> sel)"

definition exported_by_dep :: "edge \<Rightarrow> nat \<Rightarrow> dep \<Rightarrow> expDep list" where
  "exported_by_dep src i d =
     map (\<lambda>k. \<lparr>index = i, cacheKey = \<lparr>Selector = selector_of src i, CacheKey = k\<rparr>\<rparr>) (keys d) @
     (case slowCacheKey d of
        None \<Rightarrow> []
      | Some k \<Rightarrow> [\<lparr>index = i, cacheKey = \<lparr>Selector = [], CacheKey = k\<rparr>\<rparr>]) @
     (case result d of
        None \<Rightarrow> []
      | Some k \<Rightarrow> [\<lparr>index = i, cacheKey = \<lparr>Selector = selector_of src i, CacheKey = k\<rparr>\<rparr>])"

fun exported_by_deps :: "edge \<Rightarrow> nat \<Rightarrow> dep list \<Rightarrow> expDep list" where
  "exported_by_deps src i [] = []"
| "exported_by_deps src i (d # ds) = exported_by_dep src i d @ exported_by_deps src (Suc i) ds"

definition needs_selector :: "dep \<Rightarrow> bool" where
  "needs_selector d = (keys d \<noteq> [] \<or> result d \<noteq> None)"

text \<open>The state in which \<open>dispatch_merge\<close> clears the flag.\<close>

definition clear_keysDidChange :: "eid \<Rightarrow> state \<Rightarrow> state" where
  "clear_keysDidChange e s = s\<lparr>edges := (edges s)(e := (edges s e)\<lparr>keysDidChange := False\<rparr>)\<rparr>"

text \<open>\<open>no_merge s s'\<close>: from \<open>s\<close> to \<open>s'\<close> no pipe was moved and no redirect installed.\<close>

definition no_merge :: "state \<Rightarrow> state \<Rightarrow> bool" where
  "no_merge s s' =
     (ef s' = ef s \<and> incoming s' = incoming s \<and> outgoing s' = outgoing s \<and> pipes s' = pipes s)"

section \<open>Sample graphs\<close>

text \<open>An empty scheduler over a graph whose edges all look alike.\<close>

definition edge0 :: edge where
  "edge0 =
     \<lparr>edge = \<lparr>Index = 0, Vertex = \<lparr>Name = ''v'', Options = \<lparr>IgnoreCache = False\<rparr>\<rparr>\<rparr>,
      deps = [], cacheMap = None, secondaryExporters = [],
      hasActiveOutgoing = False, keysDidChange = False\<rparr>"

definition pipe0 :: edgePipe where
  "pipe0 = pipe_New \<lparr>Payload = None, Canceled = False\<rparr> None None"

definition sched0 :: state where
  "sched0 = NewScheduler Map.empty (\<lambda>_. edge0) (\<lambda>_. pipe0) (\<lambda>_. \<lparr>d_next = None, d_e = 0\<rparr>)"

text \<open>
  Edge 1 requested by a root pipe (0), with an input request to edge 3 (pipe 1,
  whose answer has arrived and is complete) and a function request (pipe 2, still
  running), each pipe with the callbacks its constructor installs. Edge 1 carries dependency keys and an exporter inherited earlier; edge
  2 ignores the cache and is registered in the index under \<open>key\<close>.
\<close>

definition edgeA :: edge where
  "edgeA =
     \<lparr>edge = \<lparr>Index = 0, Vertex = \<lparr>Name = ''a'', Options = \<lparr>IgnoreCache = False\<rparr>\<rparr>\<rparr>,
      deps = [\<lparr>keys = [''k1'', ''k2''], slowCacheKey = Some ''slow'', result = Some ''res''\<rparr>],
      cacheMap = Some \<lparr>Deps = [''sel'']\<rparr>,
      secondaryExporters = [\<lparr>index = 0, cacheKey = \<lparr>Selector = ''old'', CacheKey = ''inherited''\<rparr>\<rparr>],
      hasActiveOutgoing = False, keysDidChange = True\<rparr>"

definition edgeB :: edge where
  "edgeB =
     \<lparr>edge = \<lparr>Index = 0, Vertex = \<lparr>Name = ''b'', Options = \<lparr>IgnoreCache = True\<rparr>\<rparr>\<rparr>,
      deps = [], cacheMap = None, secondaryExporters = [],
      hasActiveOutgoing = False, keysDidChange = False\<rparr>"

definition sched1 :: state where
  "sched1 =
     sched0\<lparr>incoming := [1 \<mapsto> [0], 3 \<mapsto> [1]],
            outgoing := [1 \<mapsto> [1, 2]],
            ef := [edge edgeA \<mapsto> 1, edge edgeB \<mapsto> 2, edge edge0 \<mapsto> 3],
            pipes := (\<lambda>_. pipe0)
              (0 := pipe0\<lparr>OnSendCompletion := Some releaseWaiter,
                         OnReceiveCompletion := Some signalTarget,
                         Target := Some 1\<rparr>,
               1 := pipe0\<lparr>SenderStatus := \<lparr>Completed = True, Err = None\<rparr>,
                         pending := Some \<lparr>Completed = True, Err = None\<rparr>,
                         OnSendCompletion := Some signalFrom,
                         OnReceiveCompletion := Some signalTarget,
                         Target := Some 3, From := Some 1\<rparr>,
               2 := pipe0\<lparr>OnSendCompletion := Some signalFrom, From := Some 1\<rparr>),
            npipes := 3,
            edges := (\<lambda>_. edge0)(1 := edgeA, 2 := edgeB),
            edgeIndex := [''key'' \<mapsto> 2]\<rparr>"

text \<open>Edge 1 of the sample graph merged into edge 2.\<close>

definition merged1 :: state where
  "merged1 = snd (projr (mergeTo 2 1 sched1))"

text \<open>
  An edge logic that does nothing in \<open>unpark\<close> and reports the index key \<open>key\<close>
  for every edge.
\<close>

definition ext1 :: ext where
  "ext1 = \<lparr>unpark = (\<lambda>e inc updates out s. Inr s), currentIndexKey = (\<lambda>e s. Some ''key'')\<rparr>"

text \<open>The sample graph with nothing left in \<open>outgoing\<close>.\<close>

definition half_open :: state where
  "half_open = sched1\<lparr>outgoing := Map.empty\<rparr>"

section \<open>Properties of the dispatcher queue\<close>


lemma q_nodes_of_path:
  "q_path h p as \<Longrightarrow> length as \<le> n \<Longrightarrow> q_nodes h n p = as"
proof (induction as arbitrary: n p)
  case Nil
  then show ?case by (cases n) simp_all
next
  case (Cons a as)
  then obtain m where "n = Suc m" by (cases n) auto
  with Cons show ?case by simp
qed

lemma q_path_update_other:
  "a \<notin> set as \<Longrightarrow> q_path (h(a := v)) p as = q_path h p as"
  by (induction as arbitrary: p) auto

lemma q_path_link_last:
  assumes "q_path h p as" "as \<noteq> []" "distinct as" "d \<notin> set as" "d_next (h d) = None"
  shows "q_path (h(last as := (h (last as))\<lparr>d_next := Some d\<rparr>)) p (as @ [d])"
  using assms
proof (induction as arbitrary: p)
  case Nil
  then show ?case by simp
next
  case (Cons a as)
  show ?case
  proof (cases "as = []")
    case True
    with Cons.prems show ?thesis by auto
  next
    case False
    with Cons.prems have "last (a # as) = last as" "a \<noteq> last as" by auto
    with Cons False show ?thesis by auto
  qed
qed

lemma bounded_distinct_length:
  assumes "distinct as" "list_all (\<lambda>a. a < n) as"
  shows "length as \<le> (n::nat)"
proof -
  have "set as \<subseteq> {..<n}" using assms(2) by (auto simp: list_all_iff)
  then have "card (set as) \<le> card {..<n}" by (intro card_mono) auto
  with assms(1) show ?thesis by (simp add: distinct_card)
qed

lemma queue_inv_distinct_nodes: "queue_inv s \<Longrightarrow> distinct (nodes s)"
  by (auto simp: queue_inv_def queue_def distinct_map)

lemma queue_inv_length: "queue_inv s \<Longrightarrow> length (nodes s) \<le> ndispatchers s"
  by (rule bounded_distinct_length) (auto simp: queue_inv_distinct_nodes queue_inv_def)

lemma signal_queued: "e \<in> waitq s \<Longrightarrow> signal e s = s"
  by (simp add: signal_def)

lemma signal_nodes:
  assumes inv: "queue_inv s" and new: "e \<notin> waitq s"
  shows "q_path (dispatchers (signal e s)) (s_next (signal e s)) (nodes s @ [ndispatchers s])
         \<and> nodes (signal e s) = nodes s @ [ndispatchers s]"
proof -
  let ?d = "ndispatchers s"
  let ?as = "nodes s"
  let ?h0 = "(dispatchers s)(?d := \<lparr>d_next = None, d_e = e\<rparr>)"
  have path: "q_path (dispatchers s) (s_next s) ?as"
    and bound: "list_all (\<lambda>a. a < ?d) ?as"
    and lst: "s_last s = (if ?as = [] then None else Some (last ?as))"
    using inv by (simp_all add: queue_inv_def)
  have fresh: "?d \<notin> set ?as" using bound by (auto simp: list_all_iff)
  have dist: "distinct ?as" using inv by (rule queue_inv_distinct_nodes)
  have path0: "q_path ?h0 (s_next s) ?as"
    using path fresh by (simp add: q_path_update_other)
  have p: "q_path (dispatchers (signal e s)) (s_next (signal e s)) (?as @ [?d])"
  proof (cases "?as = []")
    case True
    with lst path new show ?thesis by (simp add: signal_def Let_def)
  next
    case False
    have "q_path (?h0(last ?as := (?h0 (last ?as))\<lparr>d_next := Some ?d\<rparr>)) (s_next s) (?as @ [?d])"
      using path0 False dist fresh by (intro q_path_link_last) simp_all
    with False lst new show ?thesis by (simp add: signal_def Let_def)
  qed
  have len: "length (?as @ [?d]) \<le> ndispatchers (signal e s)"
    using queue_inv_length[OF inv] new
    by (simp add: signal_def Let_def split: option.splits)
  have "nodes (signal e s) = ?as @ [?d]"
    unfolding nodes_def [of "signal e s"]
    using p len by (rule q_nodes_of_path)
  with p show ?thesis by simp
qed

lemma signal_queue:
  assumes inv: "queue_inv s" and new: "e \<notin> waitq s"
  shows "queue (signal e s) = queue s @ [e]"
proof -
  have fresh: "ndispatchers s \<notin> set (nodes s)"
    using inv by (auto simp: queue_inv_def list_all_iff)
  have keep: "d_e (dispatchers (signal e s) a) = d_e (dispatchers s a)"
    if "a \<in> set (nodes s)" for a
    using that fresh new by (auto simp: signal_def Let_def split: option.splits)
  have newe: "d_e (dispatchers (signal e s) (ndispatchers s)) = e"
    using inv new fresh
    by (auto simp: signal_def Let_def queue_inv_def split: option.splits if_splits)
  show ?thesis
    using signal_nodes[OF inv new] keep newe by (simp add: queue_def)
qed

lemma signal_inv:
  assumes inv: "queue_inv s"
  shows "queue_inv (signal e s)"
proof (cases "e \<in> waitq s")
  case True
  with inv show ?thesis by (simp add: signal_queued)
next
  case False
  note n = signal_nodes[OF inv False] and q = signal_queue[OF inv False]
  have w: "waitq (signal e s) = insert e (waitq s)"
    using False by (simp add: signal_def Let_def split: option.splits)
  have l: "s_last (signal e s) = Some (ndispatchers s)"
    using False by (simp add: signal_def Let_def split: option.splits)
  have nd: "ndispatchers (signal e s) = Suc (ndispatchers s)"
    using False by (simp add: signal_def Let_def split: option.splits)
  have b: "list_all (\<lambda>a. a < Suc (ndispatchers s)) (nodes s)"
    using inv by (auto simp: queue_inv_def list_all_iff)
  show ?thesis
    unfolding queue_inv_def [of "signal e s"]
    using n q w l nd b inv False by (auto simp: queue_inv_def)
qed


lemma NewScheduler_inv: "queue_inv (NewScheduler f es ps ds)"
  by (simp add: queue_inv_def NewScheduler_def nodes_def queue_def)

lemma nodes_empty_iff:
  assumes inv: "queue_inv s"
  shows "(nodes s = []) = (s_next s = None)"
proof -
  have "q_path (dispatchers s) (s_next s) (nodes s)"
    using inv by (simp add: queue_inv_def)
  then show ?thesis by (cases "nodes s") auto
qed

lemma dequeue_none:
  assumes inv: "queue_inv s"
  shows "(fst (dequeue s) = None) = (queue s = [])"
    and "queue s = [] \<Longrightarrow> dequeue s = (None, s)"
  using nodes_empty_iff[OF inv]
  by (auto simp: dequeue_def queue_def Let_def split: option.splits)

lemma dequeue_some:
  assumes inv: "queue_inv s" and deq: "dequeue s = (Some e, s')"
  shows "queue s = e # queue s' \<and> waitq s' = waitq s - {e} \<and> queue_inv s'"
proof -
  from deq obtain l where l: "s_next s = Some l"
    by (auto simp: dequeue_def split: option.splits)
  have path: "q_path (dispatchers s) (s_next s) (nodes s)"
    and bound: "list_all (\<lambda>a. a < ndispatchers s) (nodes s)"
    and lst: "s_last s = (if nodes s = [] then None else Some (last (nodes s)))"
    and dq: "distinct (queue s)" and w: "waitq s = set (queue s)"
    using inv by (simp_all add: queue_inv_def)
  from path l obtain as where as: "nodes s = l # as"
    and path': "q_path (dispatchers s) (d_next (dispatchers s l)) as"
    by (cases "nodes s") auto
  have dist: "distinct (l # as)" using queue_inv_distinct_nodes[OF inv] as by simp
  have e: "e = d_e (dispatchers s l)"
    using deq l by (auto simp: dequeue_def Let_def split: if_splits)
  have h': "dispatchers s' = dispatchers s" and nd': "ndispatchers s' = ndispatchers s"
    and nx': "s_next s' = d_next (dispatchers s l)"
    and w': "waitq s' = waitq s - {e}"
    and l': "s_last s' = (if Some l = s_last s then None else s_last s)"
    using deq l by (auto simp: dequeue_def Let_def split: if_splits)
  have len: "length as \<le> ndispatchers s" using queue_inv_length[OF inv] as by simp
  have n': "nodes s' = as"
    unfolding nodes_def h' nd' nx' using path' len by (rule q_nodes_of_path)
  have q: "queue s = e # queue s'"
    by (simp add: queue_def as n' h' e)
  have last': "s_last s' = (if as = [] then None else Some (last as))"
  proof (cases "as = []")
    case True
    with lst as l' show ?thesis by simp
  next
    case False
    then have "last (l # as) \<in> set as" by simp
    with dist have "last (l # as) \<noteq> l" by auto
    with lst as l' False show ?thesis by auto
  qed
  have "queue_inv s'"
    unfolding queue_inv_def
    using n' path' h' nx' nd' bound as last' dq w w' q by auto
  with q w' show ?thesis by simp
qed

lemma signal_repeat: "e \<in> waitq s \<Longrightarrow> (signal e ^^ n) s = s"
  by (induction n) (simp_all add: signal_queued)

lemma distinct_count_one:
  "distinct xs \<Longrightarrow> x \<in> set xs \<Longrightarrow> count_list xs x = 1"
  by (induction xs) auto

lemma waitq_count:
  assumes "queue_inv s"
  shows "(e \<in> waitq s) = (count_list (queue s) e = 1)"
proof -
  have d: "distinct (queue s)" and w: "waitq s = set (queue s)"
    using assms by (simp_all add: queue_inv_def)
  show ?thesis
  proof (cases "e \<in> set (queue s)")
    case True
    with d w show ?thesis by (simp add: distinct_count_one)
  next
    case False
    with w show ?thesis by (simp add: count_list_0_iff)
  qed
qed


lemma signal_settles:
  assumes inv: "queue_inv s"
  shows "count_list (queue ((signal e ^^ Suc n) s)) e = 1"
proof -
  have in_q: "e \<in> waitq (signal e s)"
    by (simp add: signal_def Let_def split: option.splits)
  have "(signal e ^^ Suc n) s = (signal e ^^ n) (signal e s)"
    by (simp only: funpow_Suc_right o_apply)
  also have "\<dots> = signal e s" using in_q by (rule signal_repeat)
  finally show ?thesis
    using waitq_count[OF signal_inv[OF inv], of e e] in_q by simp
qed

text \<open>
  C4. Under the queue invariant (\<open>waitq\<close> is the set of the edges in the linked list,
  each of which occurs once): an edge is in \<open>waitq\<close> iff it occurs exactly once in the
  list; \<open>signal\<close> keeps the invariant; it appends the edge and inserts it into
  \<open>waitq\<close> when the edge is not queued, and changes nothing when it is, however
  often it is repeated, so that after any number of signals the edge is queued once;
  the dequeue of the run loop returns nothing on an empty queue, and otherwise returns
  the head, leaves the rest in order, deletes the head from \<open>waitq\<close> and keeps the
  invariant; a turn of the run loop that is not stopped waits on an empty queue and
  otherwise dispatches the head of the queue in the state the dequeue left.
\<close>

theorem signal_dequeue_queue_inv:
  assumes inv: "queue_inv s"
  shows "(\<forall>x. (x \<in> waitq s) = (count_list (queue s) x = 1)) \<and>
         queue_inv (signal e s) \<and>
         (e \<notin> waitq s \<longrightarrow>
            queue (signal e s) = queue s @ [e] \<and> waitq (signal e s) = insert e (waitq s)) \<and>
         (e \<in> waitq s \<longrightarrow> (signal e ^^ n) s = s) \<and>
         count_list (queue ((signal e ^^ Suc n) s)) e = 1 \<and>
         (case queue s of
            [] \<Rightarrow> dequeue s = (None, s)
          | x # xs \<Rightarrow>
              fst (dequeue s) = Some x \<and> queue (snd (dequeue s)) = xs \<and>
              waitq (snd (dequeue s)) = waitq s - {x} \<and> queue_inv (snd (dequeue s))) \<and>
         (\<not> stopped s \<longrightarrow>
            loop_turn ex s =
              (case queue s of
                 [] \<Rightarrow> Waited (s\<lparr>cond := False\<rparr>)
               | x # xs \<Rightarrow>
                   (case dispatch ex x (snd (dequeue s)) of
                      Inl err \<Rightarrow> Crashed err
                    | Inr s2 \<Rightarrow> Dispatched s2)))"
proof -
  have a: "\<forall>x. (x \<in> waitq s) = (count_list (queue s) x = 1)"
    using waitq_count[OF inv] by blast
  have b: "queue_inv (signal e s)" using inv by (rule signal_inv)
  have c: "e \<notin> waitq s \<longrightarrow>
            queue (signal e s) = queue s @ [e] \<and> waitq (signal e s) = insert e (waitq s)"
    using signal_queue[OF inv] by (auto simp: signal_def Let_def split: option.splits)
  have d: "e \<in> waitq s \<longrightarrow> (signal e ^^ n) s = s"
    by (simp add: signal_repeat)
  have f: "count_list (queue ((signal e ^^ Suc n) s)) e = 1"
    using inv by (rule signal_settles)
  have g: "(case queue s of
            [] \<Rightarrow> dequeue s = (None, s)
          | x # xs \<Rightarrow>
              fst (dequeue s) = Some x \<and> queue (snd (dequeue s)) = xs \<and>
              waitq (snd (dequeue s)) = waitq s - {x} \<and> queue_inv (snd (dequeue s)))"
  proof (cases "queue s")
    case Nil
    then show ?thesis using dequeue_none(2)[OF inv] by simp
  next
    case (Cons x xs)
    then have "fst (dequeue s) \<noteq> None" using dequeue_none(1)[OF inv] by simp
    then obtain y s' where deq: "dequeue s = (Some y, s')"
      by (cases "dequeue s") auto
    from dequeue_some[OF inv deq] Cons deq show ?thesis by simp
  qed
  have h: "\<not> stopped s \<longrightarrow>
            loop_turn ex s =
              (case queue s of
                 [] \<Rightarrow> Waited (s\<lparr>cond := False\<rparr>)
               | x # xs \<Rightarrow>
                   (case dispatch ex x (snd (dequeue s)) of
                      Inl err \<Rightarrow> Crashed err
                    | Inr s2 \<Rightarrow> Dispatched s2))"
  proof (cases "queue s")
    case Nil
    with g show ?thesis by (simp add: loop_turn_def)
  next
    case (Cons x xs)
    with g have "fst (dequeue s) = Some x" by simp
    with Cons show ?thesis
      by (cases "dequeue s") (simp add: loop_turn_def)
  qed
  from a b c d f g h show ?thesis by blast
qed

theorem signal_dequeue_queue_inv_witness:
  "queue_inv (signal 5 sched0) \<and>
   queue (signal 5 sched0) = [5] \<and>
   queue (signal 7 (signal 5 sched0)) = [5, 7] \<and>
   (signal 5 ^^ 100) (signal 5 sched0) = signal 5 sched0 \<and>
   fst (dequeue (signal 5 sched0)) = Some 5 \<and>
   queue (snd (dequeue (signal 5 sched0))) = []"
proof -
  have inv: "queue_inv (signal 5 sched0)"
    by (simp add: queue_inv_def queue_def nodes_def signal_def sched0_def NewScheduler_def)
  have q: "queue (signal 5 sched0) = [5]"
    by (simp add: queue_def nodes_def signal_def sched0_def NewScheduler_def)
  have w: "waitq (signal 5 sched0) = {5}"
    by (simp add: signal_def sched0_def NewScheduler_def)
  show ?thesis
    using signal_dequeue_queue_inv[OF inv, of 7 100]
          signal_dequeue_queue_inv[OF inv, of 5 100] q w inv
    by simp
qed

section \<open>Properties of the dispatch step\<close>

lemma Receive_again:
  "ReceiverStatus (snd (Receive (snd (Receive p)))) = ReceiverStatus (snd (Receive p))"
  "fst (Receive (snd (Receive p))) = False"
  by (simp_all add: Receive_def split: option.splits)

lemma receive_all_Cons:
  "receive_all e (p # out) acc s =
     receive_all e out (if fst (Receive (pipes s p)) then acc @ [p] else acc) (received e p s)"
  by (cases "Receive (pipes s p)") (simp add: Let_def received_def)

lemma received_pipes:
  "ReceiverStatus (snd (Receive (pipes (received e p s) q))) =
     ReceiverStatus (snd (Receive (pipes s q)))"
  "fst (Receive (pipes (received e p s) q)) = (q \<noteq> p \<and> fst (Receive (pipes s q)))"
  by (simp_all add: received_def Receive_again)

lemma received_active:
  "hasActiveOutgoing (edges (received e p s) e) =
     (hasActiveOutgoing (edges s e) \<or>
      \<not> Completed (ReceiverStatus (snd (Receive (pipes s p)))))"
  by (simp add: received_def)

lemma receive_all_active:
  "hasActiveOutgoing (edges (snd (receive_all e out acc s)) e) =
     (hasActiveOutgoing (edges s e) \<or>
      (\<exists>p\<in>set out. \<not> Completed (ReceiverStatus (snd (Receive (pipes s p))))))"
proof (induction out arbitrary: acc s)
  case Nil
  show ?case by simp
next
  case (Cons p out)
  show ?case
    unfolding receive_all_Cons Cons.IH received_pipes received_active by auto
qed

lemma receive_all_set:
  "set (fst (receive_all e out acc s)) =
     set acc \<union> {p \<in> set out. fst (Receive (pipes s p))}"
proof (induction out arbitrary: acc s)
  case Nil
  show ?case by simp
next
  case (Cons p out)
  show ?case
    unfolding receive_all_Cons Cons.IH received_pipes by auto
qed

lemma receive_all_distinct:
  "distinct out \<Longrightarrow>
   fst (receive_all e out acc s) = acc @ filter (\<lambda>p. fst (Receive (pipes s p))) out"
proof (induction out arbitrary: acc s)
  case Nil
  show ?case by simp
next
  case (Cons p out)
  have d: "distinct out" and notin: "p \<notin> set out" using Cons.prems by simp_all
  have same: "filter (\<lambda>q. q \<noteq> p \<and> fst (Receive (pipes s q))) out =
              filter (\<lambda>q. fst (Receive (pipes s q))) out"
    using notin by (intro filter_cong) auto
  show ?case
    unfolding receive_all_Cons Cons.IH[OF d] received_pipes same by simp
qed

text \<open>
  C8. The receive phase of \<open>dispatch\<close> hands to \<open>unpark\<close> the snapshots of
  \<open>incoming[e]\<close> and \<open>outgoing[e]\<close>; in the state \<open>unpark\<close> starts from,
  \<open>hasActiveOutgoing\<close> of the edge is true iff some snapshotted receiver reports
  \<open>Completed = false\<close> after its \<open>Receive\<close>; \<open>updates\<close> holds the snapshotted
  receivers whose \<open>Receive\<close> reported an update, in snapshot order (a pipe occurs once
  in \<open>outgoing[e]\<close>).
\<close>

theorem dispatch_receive_updates:
  assumes "dispatch_receive e s = (inc, updates, out, s')"
  shows "inc = lookup (incoming s) e \<and> out = lookup (outgoing s) e \<and>
         hasActiveOutgoing (edges s' e) =
           (\<exists>p\<in>set out. \<not> Completed (ReceiverStatus (snd (Receive (pipes s p))))) \<and>
         set updates = {p \<in> set out. fst (Receive (pipes s p))} \<and>
         (distinct out \<longrightarrow> updates = filter (\<lambda>p. fst (Receive (pipes s p))) out) \<and>
         dispatch x e s =
           (case unpark x e inc updates out s' of
              Inl err \<Rightarrow> Inl err
            | Inr s2 \<Rightarrow> dispatch_finish x e s2)"
proof -
  let ?s1 = "s\<lparr>edges := (edges s)(e := (edges s e)\<lparr>hasActiveOutgoing := False\<rparr>)\<rparr>"
  let ?r = "receive_all e (lookup (outgoing s) e) [] ?s1"
  from assms have io: "inc = lookup (incoming s) e" "out = lookup (outgoing s) e"
    and u: "updates = fst ?r" and s': "s' = snd ?r"
    by (auto simp: dispatch_receive_def Let_def split: prod.splits)
  have a: "hasActiveOutgoing (edges s' e) =
           (\<exists>p\<in>set out. \<not> Completed (ReceiverStatus (snd (Receive (pipes s p)))))"
    unfolding s' io by (simp add: receive_all_active)
  have b: "set updates = {p \<in> set out. fst (Receive (pipes s p))}"
    unfolding u io by (simp add: receive_all_set)
  have c: "distinct out \<longrightarrow> updates = filter (\<lambda>p. fst (Receive (pipes s p))) out"
    unfolding u io by (simp add: receive_all_distinct)
  have d: "dispatch x e s =
           (case unpark x e inc updates out s' of
              Inl err \<Rightarrow> Inl err
            | Inr s2 \<Rightarrow> dispatch_finish x e s2)"
    using assms by (simp add: dispatch_def)
  from io a b c d show ?thesis by blast
qed

theorem dispatch_receive_updates_witness:
  "fst (snd (dispatch_receive 1 sched1)) = [1] \<and>
   hasActiveOutgoing (edges (snd (snd (snd (dispatch_receive 1 sched1)))) 1)"
proof -
  have out: "lookup (outgoing sched1) 1 = [1, 2]"
    by (simp add: sched1_def lookup_def)
  have p1: "Receive (pipes sched1 1) = (True, (pipes sched1 1)\<lparr>ReceiverStatus := \<lparr>Completed = True, Err = None\<rparr>, pending := None\<rparr>)"
    by (simp add: sched1_def Receive_def pipe0_def pipe_New_def)
  have p2: "Receive (pipes sched1 2) = (False, pipes sched1 2)"
    by (simp add: sched1_def Receive_def pipe0_def pipe_New_def)
  have c2: "\<not> Completed (ReceiverStatus (pipes sched1 2))"
    by (simp add: sched1_def pipe0_def pipe_New_def)
  have h: "dispatch_receive 1 sched1 =
             (fst (dispatch_receive 1 sched1), fst (snd (dispatch_receive 1 sched1)),
              fst (snd (snd (dispatch_receive 1 sched1))),
              snd (snd (snd (dispatch_receive 1 sched1))))"
    by simp
  show ?thesis
    using dispatch_receive_updates[OF h] out p1 p2 c2 by simp
qed

lemma open_incoming_filter:
  "open_incoming ps rs acc = acc @ filter (\<lambda>r. \<not> Completed (SenderStatus (ps r))) rs"
  by (induction rs arbitrary: acc) simp_all

lemma open_outgoing_filter:
  "open_outgoing ps rs acc = acc @ filter (\<lambda>r. \<not> Completed (ReceiverStatus (ps r))) rs"
  by (induction rs arbitrary: acc) simp_all

lemma lookup_simps:
  "lookup (m(e \<mapsto> ps)) e = ps"
  "lookup (m(e := None)) e = []"
  "e' \<noteq> e \<Longrightarrow> lookup (m(e := v)) e' = lookup m e'"
  "m e = None \<Longrightarrow> lookup m e = []"
  "m e = Some ps \<Longrightarrow> lookup m e = ps"
  by (simp_all add: lookup_def)

lemma dispatch_prune_lists:
  assumes "dispatch_prune e s = (openIncoming, openOutgoing, s')"
  shows "openIncoming = filter (\<lambda>r. \<not> Completed (SenderStatus (pipes s r))) (lookup (incoming s) e) \<and>
         openOutgoing = filter (\<lambda>r. \<not> Completed (ReceiverStatus (pipes s r))) (lookup (outgoing s) e) \<and>
         lookup (incoming s') e = openIncoming \<and>
         lookup (outgoing s') e = openOutgoing \<and>
         (incoming s' e = None) = (openIncoming = []) \<and>
         (outgoing s' e = None) = (openOutgoing = []) \<and>
         (\<forall>e'. e' \<noteq> e \<longrightarrow> incoming s' e' = incoming s e' \<and> outgoing s' e' = outgoing s e') \<and>
         pipes s' = pipes s"
  using assms
  by (auto simp: dispatch_prune_def Let_def open_incoming_filter open_outgoing_filter
        lookup_simps split: if_splits)

lemma dispatch_prune_frame:
  "edges (snd (snd (dispatch_prune e s))) = edges s"
  "ef (snd (snd (dispatch_prune e s))) = ef s"
  "edgeIndex (snd (snd (dispatch_prune e s))) = edgeIndex s"
  "pipes (snd (snd (dispatch_prune e s))) = pipes s"
  "waitq (snd (snd (dispatch_prune e s))) = waitq s"
  by (simp_all add: dispatch_prune_def Let_def)

lemma dispatch_after_unpark:
  assumes "dispatch_receive e s0 = (inc, updates, out, s1)"
    and "unpark x e inc updates out s1 = Inr s"
  shows "dispatch x e s0 = dispatch_finish x e s"
  using assms by (simp add: dispatch_def)

lemma dispatch_finish_pruned:
  assumes "dispatch_prune e s = (openIncoming, openOutgoing, s')"
  shows "dispatch_finish x e s =
           (case dispatch_merge x e s' of
              Inl err \<Rightarrow> Inl err
            | Inr s2 \<Rightarrow>
                if openIncoming \<noteq> [] \<and> openOutgoing = []
                then Inl (Panic ''invalid dispatch: return leaving incoming open'')
                else if openIncoming = [] \<and> openOutgoing \<noteq> []
                then Inl (Panic ''invalid dispatch: return leaving outgoing open'')
                else Inr s2)"
  using assms by (auto simp: dispatch_finish_def split: sum.splits)

text \<open>
  C7. \<open>dispatch\<close> continues, on the state that \<open>unpark\<close> returned, with the prune
  phase: its merge phase starts from the pruned state and its exit check reads the
  pruned lists. After the prune phase \<open>incoming[e]\<close> holds, in their order, the
  pipes of \<open>incoming[e]\<close> whose sender is not completed, and \<open>outgoing[e]\<close> those of
  \<open>outgoing[e]\<close> whose receiver is not completed; the map entry is absent exactly
  when the pruned list is empty. The entries of other edges and the pipes are left
  as they were.
\<close>

theorem dispatch_prune_open:
  assumes "dispatch_prune e s = (openIncoming, openOutgoing, s')"
  shows "openIncoming = filter (\<lambda>r. \<not> Completed (SenderStatus (pipes s r))) (lookup (incoming s) e) \<and>
         openOutgoing = filter (\<lambda>r. \<not> Completed (ReceiverStatus (pipes s r))) (lookup (outgoing s) e) \<and>
         lookup (incoming s') e = openIncoming \<and>
         lookup (outgoing s') e = openOutgoing \<and>
         (incoming s' e = None) = (openIncoming = []) \<and>
         (outgoing s' e = None) = (openOutgoing = []) \<and>
         (\<forall>e'. e' \<noteq> e \<longrightarrow> incoming s' e' = incoming s e' \<and> outgoing s' e' = outgoing s e') \<and>
         pipes s' = pipes s \<and>
         dispatch_finish x e s =
           (case dispatch_merge x e s' of
              Inl err \<Rightarrow> Inl err
            | Inr s2 \<Rightarrow>
                if openIncoming \<noteq> [] \<and> openOutgoing = []
                then Inl (Panic ''invalid dispatch: return leaving incoming open'')
                else if openIncoming = [] \<and> openOutgoing \<noteq> []
                then Inl (Panic ''invalid dispatch: return leaving outgoing open'')
                else Inr s2) \<and>
         (\<forall>s0 inc updates out s1.
            dispatch_receive e s0 = (inc, updates, out, s1) \<and>
            unpark x e inc updates out s1 = Inr s \<longrightarrow>
            dispatch x e s0 = dispatch_finish x e s)"
  using dispatch_prune_lists[OF assms] dispatch_finish_pruned[OF assms, of x]
    dispatch_after_unpark[of e _ _ _ _ _ x s]
  by blast

theorem dispatch_prune_open_witness:
  "fst (dispatch_prune 3 sched1) = [] \<and> incoming (snd (snd (dispatch_prune 3 sched1))) 3 = None \<and>
   fst (dispatch_prune 1 sched1) = [0] \<and> fst (snd (dispatch_prune 1 sched1)) = [1, 2] \<and>
   lookup (incoming (snd (snd (dispatch_prune 1 sched1)))) 1 = [0] \<and>
   dispatch_finish ext1 3 sched1 = Inr (snd (snd (dispatch_prune 3 sched1))) \<and>
   dispatch ext1 3 sched1 =
     dispatch_finish ext1 3 (snd (snd (snd (dispatch_receive 3 sched1))))"
proof -
  have h: "dispatch_prune e sched1 =
             (fst (dispatch_prune e sched1), fst (snd (dispatch_prune e sched1)),
              snd (snd (dispatch_prune e sched1)))" for e
    by simp
  have l: "lookup (incoming sched1) 3 = [1]" "lookup (incoming sched1) 1 = [0]"
          "lookup (outgoing sched1) 1 = [1, 2]" "lookup (outgoing sched1) 3 = []"
    by (simp_all add: sched1_def lookup_def)
  have p: "Completed (SenderStatus (pipes sched1 1))"
          "\<not> Completed (SenderStatus (pipes sched1 0))"
          "\<not> Completed (ReceiverStatus (pipes sched1 1))"
          "\<not> Completed (ReceiverStatus (pipes sched1 2))"
    by (simp_all add: sched1_def pipe0_def pipe_New_def)
  have k: "\<not> keysDidChange (edges (snd (snd (dispatch_prune 3 sched1))) 3)"
    by (simp add: dispatch_prune_frame) (simp add: sched1_def edge0_def)
  have m: "dispatch_merge ext1 3 (snd (snd (dispatch_prune 3 sched1))) =
           Inr (snd (snd (dispatch_prune 3 sched1)))"
    using k by (simp add: dispatch_merge_def)
  have r: "dispatch_receive 3 sched1 =
             (fst (dispatch_receive 3 sched1), fst (snd (dispatch_receive 3 sched1)),
              fst (snd (snd (dispatch_receive 3 sched1))),
              snd (snd (snd (dispatch_receive 3 sched1))))"
    by simp
  have u: "unpark ext1 3 (fst (dispatch_receive 3 sched1)) (fst (snd (dispatch_receive 3 sched1)))
             (fst (snd (snd (dispatch_receive 3 sched1))))
             (snd (snd (snd (dispatch_receive 3 sched1)))) =
           Inr (snd (snd (snd (dispatch_receive 3 sched1))))"
    by (simp add: ext1_def)
  have h': "dispatch_prune 3 (snd (snd (snd (dispatch_receive 3 sched1)))) =
             (fst (dispatch_prune 3 (snd (snd (snd (dispatch_receive 3 sched1))))),
              fst (snd (dispatch_prune 3 (snd (snd (snd (dispatch_receive 3 sched1)))))),
              snd (snd (dispatch_prune 3 (snd (snd (snd (dispatch_receive 3 sched1)))))))"
    by simp
  have d: "dispatch ext1 3 sched1 =
           dispatch_finish ext1 3 (snd (snd (snd (dispatch_receive 3 sched1))))"
    using dispatch_prune_open[OF h', of ext1] r u by blast
  have f: "dispatch_finish ext1 3 sched1 = Inr (snd (snd (dispatch_prune 3 sched1)))"
    using dispatch_prune_open[OF h[of 3], of ext1] l p m by simp
  show ?thesis
    using dispatch_prune_open[OF h[of 3], of ext1] dispatch_prune_open[OF h[of 1], of ext1]
      l p d f
    by simp
qed

section \<open>Properties of merging and of the build entry\<close>

text \<open>
  C3. \<open>mergeTo\<close> returns false iff the target honours the cache and the source
  ignores it, and then the state it returns is the state it was called in.
\<close>

theorem mergeTo_refuses:
  "((\<exists>s'. mergeTo target src s = Inr (False, s')) =
      (\<not> IgnoreCache (Options (Vertex (edge (edges s target)))) \<and>
       IgnoreCache (Options (Vertex (edge (edges s src)))))) \<and>
   (\<not> IgnoreCache (Options (Vertex (edge (edges s target)))) \<and>
    IgnoreCache (Options (Vertex (edge (edges s src)))) \<longrightarrow>
      mergeTo target src s = Inr (False, s))"
  by (auto simp: mergeTo_def Let_def split: sum.splits)

theorem mergeTo_refuses_witness:
  "mergeTo 1 2 sched1 = Inr (False, sched1) \<and> (\<nexists>s'. mergeTo 2 1 sched1 = Inr (False, s'))"
proof -
  have a: "\<not> IgnoreCache (Options (Vertex (edge (edges sched1 1))))"
    and b: "IgnoreCache (Options (Vertex (edge (edges sched1 2))))"
    by (simp_all add: sched1_def edgeA_def edgeB_def)
  show ?thesis
    using mergeTo_refuses[of 1 2 sched1] mergeTo_refuses[of 2 1 sched1] a b by simp
qed

text \<open>
  C9. When the factory does not know the descriptor, \<open>build\<close> returns the
  invalid-request error and leaves the whole state (pipes, \<open>incoming\<close>,
  \<open>outgoing\<close>, queue) untouched.
\<close>

theorem build_invalid_request:
  assumes "GetEdge ee s = None"
  shows "build ee s = (Inl (InvalidRequest ee), s)"
  using assms by (simp add: build_def)

theorem build_invalid_request_witness:
  "GetEdge \<lparr>Index = 7, Vertex = \<lparr>Name = ''unknown'', Options = \<lparr>IgnoreCache = False\<rparr>\<rparr>\<rparr> sched1 = None \<and>
   build \<lparr>Index = 7, Vertex = \<lparr>Name = ''unknown'', Options = \<lparr>IgnoreCache = False\<rparr>\<rparr>\<rparr> sched1 =
     (Inl (InvalidRequest \<lparr>Index = 7, Vertex = \<lparr>Name = ''unknown'', Options = \<lparr>IgnoreCache = False\<rparr>\<rparr>\<rparr>),
      sched1)"
proof -
  have h: "GetEdge \<lparr>Index = 7, Vertex = \<lparr>Name = ''unknown'', Options = \<lparr>IgnoreCache = False\<rparr>\<rparr>\<rparr> sched1 = None"
    by (simp add: GetEdge_def sched1_def edgeA_def edgeB_def edge0_def)
  show ?thesis using h build_invalid_request[OF h] by simp
qed

lemma merge_incoming_closed:
  "merge_incoming t incs s =
     s\<lparr>pipes := (\<lambda>q. if q \<in> set incs then (pipes s q)\<lparr>Target := Some t\<rparr> else pipes s q),
       incoming := (if incs = [] then incoming s
                    else (incoming s)(t \<mapsto> lookup (incoming s) t @ incs))\<rparr>"
proof (induction incs arbitrary: s)
  case Nil
  show ?case by simp
next
  case (Cons a incs)
  show ?case
    by (simp add: Cons.IH lookup_simps fun_eq_iff)
qed

lemma signal_frame:
  "incoming (signal e s) = incoming s" "outgoing (signal e s) = outgoing s"
  "pipes (signal e s) = pipes s" "edges (signal e s) = edges s" "ef (signal e s) = ef s"
  "edgeIndex (signal e s) = edgeIndex s" "npipes (signal e s) = npipes s"
  "stopped (signal e s) = stopped s"
  by (simp_all add: signal_def Let_def split: option.splits)

lemma signal_waitq: "waitq (signal e s) = insert e (waitq s)"
  by (auto simp: signal_def Let_def split: option.splits)

lemma queue_fields_cong:
  assumes "dispatchers t = dispatchers s" "ndispatchers t = ndispatchers s"
    "s_next t = s_next s" "s_last t = s_last s" "waitq t = waitq s"
  shows "queue_inv t = queue_inv s" "queue t = queue s"
  using assms by (simp_all add: queue_inv_def queue_def nodes_def)

lemma queue_extends_refl: "queue_inv s \<Longrightarrow> queue_extends s s"
  by (simp add: queue_extends_def)

lemma queue_extends_trans:
  "queue_extends s t \<Longrightarrow> queue_extends t u \<Longrightarrow> queue_extends s u"
  by (auto simp: queue_extends_def)

lemma queue_extends_signal: "queue_inv s \<Longrightarrow> queue_extends s (signal e s)"
  using signal_queue[of s e]
  by (cases "e \<in> waitq s") (simp_all add: queue_extends_def signal_inv signal_queued)

lemma queue_extends_same:
  assumes "queue_inv s" "dispatchers t = dispatchers s" "ndispatchers t = ndispatchers s"
    "s_next t = s_next s" "s_last t = s_last s" "waitq t = waitq s"
  shows "queue_extends s t"
  using assms queue_fields_cong[of t s] by (simp add: queue_extends_def)

lemma run_callback_frame:
  "incoming (run_callback cb p s) = incoming s" "outgoing (run_callback cb p s) = outgoing s"
  "edges (run_callback cb p s) = edges s" "ef (run_callback cb p s) = ef s"
  "edgeIndex (run_callback cb p s) = edgeIndex s"
  "From (pipes (run_callback cb p s) q) = From (pipes s q)"
  "Target (pipes (run_callback cb p s) q) = Target (pipes s q)"
  "req (pipes (run_callback cb p s) q) = req (pipes s q)"
  "OnReceiveCompletion (pipes (run_callback cb p s) q) = OnReceiveCompletion (pipes s q)"
  by (simp_all add: run_callback_def signal_frame Receive_def
        split: option.splits callback.splits)

lemma run_callback_waitq:
  "waitq s \<subseteq> waitq (run_callback cb p s)"
  "waitq (run_callback cb p s) \<subseteq>
     waitq s \<union> {e. Target (pipes s p) = Some e \<or> From (pipes s p) = Some e}"
  "Target (pipes s p) = Some e \<Longrightarrow> e \<in> waitq (run_callback (Some signalTarget) p s)"
  by (auto simp: run_callback_def signal_waitq split: option.splits callback.splits)

lemma run_callback_queue: "queue_inv s \<Longrightarrow> queue_extends s (run_callback cb p s)"
  by (auto simp: run_callback_def queue_extends_refl queue_extends_signal
        intro: queue_extends_same split: option.splits callback.splits)

lemma Cancel_frame:
  "incoming (Cancel p s) = incoming s" "outgoing (Cancel p s) = outgoing s"
  "edges (Cancel p s) = edges s" "ef (Cancel p s) = ef s"
  "edgeIndex (Cancel p s) = edgeIndex s"
  "From (pipes (Cancel p s) q) = From (pipes s q)"
  "Target (pipes (Cancel p s) q) = Target (pipes s q)"
  "Canceled (req (pipes (Cancel p s) q)) = (q = p \<or> Canceled (req (pipes s q)))"
  "OnReceiveCompletion (pipes (Cancel p s) q) = OnReceiveCompletion (pipes s q)"
  by (auto simp: Cancel_def Let_def run_callback_frame mark_canceled_def)

lemma Cancel_waitq:
  "waitq s \<subseteq> waitq (Cancel p s)"
  "waitq (Cancel p s) \<subseteq>
     waitq s \<union> {e. Target (pipes s p) = Some e \<or> From (pipes s p) = Some e}"
  "\<not> Canceled (req (pipes s p)) \<Longrightarrow> OnReceiveCompletion (pipes s p) = Some signalTarget \<Longrightarrow>
     Target (pipes s p) = Some e \<Longrightarrow> e \<in> waitq (Cancel p s)"
proof -
  let ?s1 = "s\<lparr>pipes := (pipes s)(p := mark_canceled (pipes s p))\<rparr>"
  have t: "Target (pipes ?s1 p) = Target (pipes s p)" "From (pipes ?s1 p) = From (pipes s p)"
    "OnReceiveCompletion (pipes ?s1 p) = OnReceiveCompletion (pipes s p)" "waitq ?s1 = waitq s"
    by (simp_all add: mark_canceled_def)
  show "waitq s \<subseteq> waitq (Cancel p s)"
    using run_callback_waitq(1)[of ?s1 "OnReceiveCompletion (pipes ?s1 p)" p]
    by (simp add: Cancel_def Let_def)
  show "waitq (Cancel p s) \<subseteq>
     waitq s \<union> {e. Target (pipes s p) = Some e \<or> From (pipes s p) = Some e}"
    using run_callback_waitq(2)[of "OnReceiveCompletion (pipes ?s1 p)" p ?s1] t
    by (auto simp: Cancel_def Let_def)
  show "e \<in> waitq (Cancel p s)"
    if "\<not> Canceled (req (pipes s p))" "OnReceiveCompletion (pipes s p) = Some signalTarget"
      "Target (pipes s p) = Some e"
    using that run_callback_waitq(3)[of ?s1 p e] t by (simp add: Cancel_def Let_def)
qed

lemma Cancel_queue:
  assumes "queue_inv s"
  shows "queue_extends s (Cancel p s)"
proof (cases "Canceled (req (pipes s p))")
  case True
  with assms show ?thesis by (simp add: Cancel_def queue_extends_refl)
next
  case False
  let ?s1 = "s\<lparr>pipes := (pipes s)(p := mark_canceled (pipes s p))\<rparr>"
  have a: "queue_extends s ?s1" using assms by (intro queue_extends_same) simp_all
  then have "queue_inv ?s1" by (simp add: queue_extends_def)
  then have "queue_extends ?s1 (run_callback (OnReceiveCompletion (pipes ?s1 p)) p ?s1)"
    by (rule run_callback_queue)
  with a False show ?thesis
    by (simp add: Cancel_def Let_def queue_extends_trans)
qed

lemma merge_outgoing_Cons:
  "merge_outgoing t (a # outs) s =
     merge_outgoing t outs
       (Cancel a (s\<lparr>pipes := (pipes s)(a := (pipes s a)\<lparr>From := Some t\<rparr>),
                   outgoing := (outgoing s)(t \<mapsto> lookup (outgoing s) t @ [a])\<rparr>))"
  by (simp add: Let_def)

lemma merge_outgoing_frame:
  "incoming (merge_outgoing t outs s) = incoming s"
  "edges (merge_outgoing t outs s) = edges s"
  "ef (merge_outgoing t outs s) = ef s"
  "edgeIndex (merge_outgoing t outs s) = edgeIndex s"
  "Target (pipes (merge_outgoing t outs s) q) = Target (pipes s q)"
  "OnReceiveCompletion (pipes (merge_outgoing t outs s) q) = OnReceiveCompletion (pipes s q)"
  by (induction outs arbitrary: s; simp only: merge_outgoing.simps(1) merge_outgoing_Cons;
      simp add: Cancel_frame)+

lemma merge_outgoing_outgoing:
  "outgoing (merge_outgoing t outs s) =
     (if outs = [] then outgoing s else (outgoing s)(t \<mapsto> lookup (outgoing s) t @ outs))"
proof (induction outs arbitrary: s)
  case Nil
  show ?case by simp
next
  case (Cons a outs)
  show ?case
    unfolding merge_outgoing_Cons Cons.IH by (simp add: Cancel_frame lookup_simps fun_eq_iff)
qed

lemma merge_outgoing_pipes:
  "From (pipes (merge_outgoing t outs s) q) = (if q \<in> set outs then Some t else From (pipes s q))"
  "Canceled (req (pipes (merge_outgoing t outs s) q)) =
     (q \<in> set outs \<or> Canceled (req (pipes s q)))"
proof (induction outs arbitrary: s)
  case Nil
  {
    case 1 show ?case by simp
  next
    case 2 show ?case by simp
  }
next
  case (Cons a outs)
  {
    case 1 show ?case
      unfolding merge_outgoing_Cons Cons.IH by (auto simp: Cancel_frame)
  next
    case 2 show ?case
      unfolding merge_outgoing_Cons Cons.IH by (auto simp: Cancel_frame)
  }
qed

lemma merge_outgoing_queue:
  "queue_inv s \<Longrightarrow> queue_extends s (merge_outgoing t outs s)"
proof (induction outs arbitrary: s)
  case Nil
  then show ?case by (simp add: queue_extends_refl)
next
  case (Cons a outs)
  let ?s1 = "s\<lparr>pipes := (pipes s)(a := (pipes s a)\<lparr>From := Some t\<rparr>),
               outgoing := (outgoing s)(t \<mapsto> lookup (outgoing s) t @ [a])\<rparr>"
  have a: "queue_extends s ?s1" using Cons.prems by (intro queue_extends_same) simp_all
  then have i1: "queue_inv ?s1" by (simp add: queue_extends_def)
  have b: "queue_extends ?s1 (Cancel a ?s1)" using i1 by (rule Cancel_queue)
  then have "queue_inv (Cancel a ?s1)" by (simp add: queue_extends_def)
  from Cons.IH[OF this] a b show ?case
    unfolding merge_outgoing_Cons by (blast intro: queue_extends_trans)
qed

lemma merge_outgoing_waitq_mono: "waitq s \<subseteq> waitq (merge_outgoing t outs s)"
proof (induction outs arbitrary: s)
  case Nil
  show ?case by simp
next
  case (Cons a outs)
  let ?s1 = "s\<lparr>pipes := (pipes s)(a := (pipes s a)\<lparr>From := Some t\<rparr>),
               outgoing := (outgoing s)(t \<mapsto> lookup (outgoing s) t @ [a])\<rparr>"
  have "waitq s \<subseteq> waitq (Cancel a ?s1)" using Cancel_waitq(1)[of ?s1 a] by simp
  with Cons.IH[of "Cancel a ?s1"] show ?case
    unfolding merge_outgoing_Cons by blast
qed

lemma merge_outgoing_waitq_upper:
  "waitq (merge_outgoing t outs s) \<subseteq>
     waitq s \<union> {t} \<union> {e. \<exists>p\<in>set outs. Target (pipes s p) = Some e}"
proof (induction outs arbitrary: s)
  case Nil
  show ?case by auto
next
  case (Cons a outs)
  let ?s1 = "s\<lparr>pipes := (pipes s)(a := (pipes s a)\<lparr>From := Some t\<rparr>),
               outgoing := (outgoing s)(t \<mapsto> lookup (outgoing s) t @ [a])\<rparr>"
  have tg: "Target (pipes (Cancel a ?s1) p) = Target (pipes s p)" for p
    by (simp add: Cancel_frame)
  have "waitq (Cancel a ?s1) \<subseteq> waitq s \<union> {t} \<union> {e. Target (pipes s a) = Some e}"
    using Cancel_waitq(2)[of a ?s1] by auto
  with Cons.IH[of "Cancel a ?s1"] show ?case
    unfolding merge_outgoing_Cons tg by auto
qed

lemma merge_outgoing_wakes:
  "p \<in> set outs \<Longrightarrow> \<not> Canceled (req (pipes s p)) \<Longrightarrow>
   OnReceiveCompletion (pipes s p) = Some signalTarget \<Longrightarrow> Target (pipes s p) = Some e \<Longrightarrow>
   e \<in> waitq (merge_outgoing t outs s)"
proof (induction outs arbitrary: s)
  case Nil
  then show ?case by simp
next
  case (Cons a outs)
  let ?s1 = "s\<lparr>pipes := (pipes s)(a := (pipes s a)\<lparr>From := Some t\<rparr>),
               outgoing := (outgoing s)(t \<mapsto> lookup (outgoing s) t @ [a])\<rparr>"
  show ?case
  proof (cases "a = p")
    case True
    have "e \<in> waitq (Cancel p ?s1)"
      using Cons.prems True by (intro Cancel_waitq(3)) simp_all
    with merge_outgoing_waitq_mono[of "Cancel p ?s1" t outs] True show ?thesis
      unfolding merge_outgoing_Cons by blast
  next
    case False
    with Cons.prems have "p \<in> set outs" by simp
    moreover have "\<not> Canceled (req (pipes (Cancel a ?s1) p))"
      "OnReceiveCompletion (pipes (Cancel a ?s1) p) = Some signalTarget"
      "Target (pipes (Cancel a ?s1) p) = Some e"
      using Cons.prems False by (simp_all add: Cancel_frame)
    ultimately show ?thesis
      unfolding merge_outgoing_Cons by (rule Cons.IH)
  qed
qed

lemma rewired_frame:
  "edges (rewired t src s) = edges s" "ef (rewired t src s) = ef s"
  "edgeIndex (rewired t src s) = edgeIndex s"
  by (simp_all add: rewired_def merge_incoming_closed merge_outgoing_frame Let_def)

lemma rewired_incoming:
  "incoming (rewired t src s) src = None"
  "t \<noteq> src \<Longrightarrow>
     lookup (incoming (rewired t src s)) t = lookup (incoming s) t @ lookup (incoming s) src"
  "e \<noteq> src \<Longrightarrow> e \<noteq> t \<Longrightarrow> incoming (rewired t src s) e = incoming s e"
  by (simp_all add: rewired_def merge_incoming_closed merge_outgoing_frame Let_def lookup_simps)

lemma rewired_outgoing:
  "outgoing (rewired t src s) src = None"
  "t \<noteq> src \<Longrightarrow>
     lookup (outgoing (rewired t src s)) t = lookup (outgoing s) t @ lookup (outgoing s) src"
  "e \<noteq> src \<Longrightarrow> e \<noteq> t \<Longrightarrow> outgoing (rewired t src s) e = outgoing s e"
  by (simp_all add: rewired_def merge_incoming_closed merge_outgoing_outgoing Let_def lookup_simps)

lemma rewired_pipes:
  "p \<in> set (lookup (incoming s) src) \<Longrightarrow> Target (pipes (rewired t src s) p) = Some t"
  "p \<in> set (lookup (outgoing s) src) \<Longrightarrow>
     From (pipes (rewired t src s) p) = Some t \<and> Canceled (req (pipes (rewired t src s) p))"
  by (simp_all add: rewired_def merge_incoming_closed merge_outgoing_frame merge_outgoing_pipes
        Let_def)

lemma rewired_queue:
  assumes "queue_inv s"
  shows "queue_extends s (rewired t src s)"
proof -
  let ?s1 = "merge_incoming t (lookup (incoming s) src) s"
  let ?s2 = "merge_outgoing t (lookup (outgoing ?s1) src) ?s1"
  have a: "queue_extends s ?s1"
    using assms by (intro queue_extends_same) (simp_all add: merge_incoming_closed)
  then have "queue_inv ?s1" by (simp add: queue_extends_def)
  then have b: "queue_extends ?s1 ?s2" by (rule merge_outgoing_queue)
  then have "queue_inv ?s2" by (simp add: queue_extends_def)
  then have c: "queue_extends ?s2 (rewired t src s)"
    by (intro queue_extends_same) (simp_all add: rewired_def Let_def)
  from a b c show ?thesis by (blast intro: queue_extends_trans)
qed

lemma rewired_waitq:
  "waitq (rewired t src s) \<subseteq>
     waitq s \<union> {t} \<union>
     {e. \<exists>p\<in>set (lookup (outgoing s) src). Target (pipes (rewired t src s) p) = Some e}"
  "p \<in> set (lookup (outgoing s) src) \<Longrightarrow> \<not> Canceled (req (pipes s p)) \<Longrightarrow>
   OnReceiveCompletion (pipes s p) = Some signalTarget \<Longrightarrow>
   Target (pipes (rewired t src s) p) = Some e \<Longrightarrow> e \<in> waitq (rewired t src s)"
proof -
  let ?s1 = "merge_incoming t (lookup (incoming s) src) s"
  have o1: "lookup (outgoing ?s1) src = lookup (outgoing s) src" "waitq ?s1 = waitq s"
    and p1: "Canceled (req (pipes ?s1 q)) = Canceled (req (pipes s q))"
      "OnReceiveCompletion (pipes ?s1 q) = OnReceiveCompletion (pipes s q)" for q
    by (simp_all add: merge_incoming_closed)
  have tg: "Target (pipes (rewired t src s) q) = Target (pipes ?s1 q)" for q
    by (simp add: rewired_def Let_def merge_outgoing_frame)
  have w: "waitq (rewired t src s) = waitq (merge_outgoing t (lookup (outgoing s) src) ?s1)"
    by (simp add: rewired_def Let_def o1)
  show "waitq (rewired t src s) \<subseteq>
     waitq s \<union> {t} \<union>
     {e. \<exists>p\<in>set (lookup (outgoing s) src). Target (pipes (rewired t src s) p) = Some e}"
    unfolding w tg using merge_outgoing_waitq_upper[of t "lookup (outgoing s) src" ?s1] o1(2)
    by simp
  show "e \<in> waitq (rewired t src s)"
    if "p \<in> set (lookup (outgoing s) src)" "\<not> Canceled (req (pipes s p))"
      "OnReceiveCompletion (pipes s p) = Some signalTarget"
      "Target (pipes (rewired t src s) p) = Some e"
    unfolding w using that p1 tg by (intro merge_outgoing_wakes) simp_all
qed

lemma mergeTo_unfold:
  "mergeTo target src s =
     (if \<not> IgnoreCache (Options (Vertex (edge (edges s target)))) \<and>
         IgnoreCache (Options (Vertex (edge (edges s src))))
      then Inr (False, s)
      else (case export_deps (edges s src) 0 (deps (edges s src))
                   (secondaryExporters (edges s target)) of
              Inl err \<Rightarrow> Inl err
            | Inr exps \<Rightarrow>
                Inr (True,
                     (signal target (rewired target src s))
                       \<lparr>edges := (edges s)(target := (edges s target)\<lparr>secondaryExporters := exps\<rparr>)\<rparr>)))"
proof -
  have e: "edges (signal target (rewired target src s)) = edges s"
    by (simp add: signal_frame rewired_frame)
  have r: "signal target (rewired target src s) =
           signal target
             ((merge_outgoing target
                 (lookup (outgoing (merge_incoming target (lookup (incoming s) src) s)) src)
                 (merge_incoming target (lookup (incoming s) src) s))
              \<lparr>incoming :=
                 (incoming (merge_outgoing target
                    (lookup (outgoing (merge_incoming target (lookup (incoming s) src) s)) src)
                    (merge_incoming target (lookup (incoming s) src) s)))(src := None),
               outgoing :=
                 (outgoing (merge_outgoing target
                    (lookup (outgoing (merge_incoming target (lookup (incoming s) src) s)) src)
                    (merge_incoming target (lookup (incoming s) src) s)))(src := None)\<rparr>)"
    by (simp add: rewired_def Let_def)
  show ?thesis
    unfolding mergeTo_def Let_def r[symmetric] e ..
qed

lemma mergeTo_success:
  assumes "mergeTo target src s = Inr (True, s')"
  obtains exps where
    "export_deps (edges s src) 0 (deps (edges s src)) (secondaryExporters (edges s target)) = Inr exps"
    "s' = (signal target (rewired target src s))
            \<lparr>edges := (edges s)(target := (edges s target)\<lparr>secondaryExporters := exps\<rparr>)\<rparr>"
  using assms unfolding mergeTo_unfold by (auto split: if_splits sum.splits)

text \<open>
  C1. A successful \<open>mergeTo(target, src)\<close> between two different edges (the only
  call passes the other edge found in the index): every pipe of \<open>incoming[src]\<close> gets
  \<open>Target = target\<close> and is in \<open>incoming[target]\<close>; every pipe of \<open>outgoing[src]\<close>
  gets \<open>From = target\<close>, is in \<open>outgoing[target]\<close> and has its request canceled;
  \<open>src\<close> is deleted from both maps; the lists of \<open>target\<close> are its former lists
  followed by those of \<open>src\<close>, so no pipe is lost and \<open>target\<close> has as many more
  incoming requests as \<open>src\<close> had; the entries of other edges are unchanged; and
  \<open>target\<close> is signaled: it is in \<open>waitq\<close>. Besides \<open>target\<close>, the merge wakes
  only edges that the moved outgoing pipes point to, and it wakes each such edge
  whose pipe was not canceled before and carries the callback of \<open>newPipe\<close>. A well
  formed queue stays well formed, keeps its edges in place, and holds \<open>target\<close>
  once.
\<close>

theorem mergeTo_rewires:
  assumes ok: "mergeTo target src s = Inr (True, s')" and ne: "target \<noteq> src"
  shows "(\<forall>p\<in>set (lookup (incoming s) src).
            Target (pipes s' p) = Some target \<and> p \<in> set (lookup (incoming s') target)) \<and>
         (\<forall>p\<in>set (lookup (outgoing s) src).
            From (pipes s' p) = Some target \<and> p \<in> set (lookup (outgoing s') target) \<and>
            Canceled (req (pipes s' p))) \<and>
         incoming s' src = None \<and> outgoing s' src = None \<and>
         lookup (incoming s') target = lookup (incoming s) target @ lookup (incoming s) src \<and>
         lookup (outgoing s') target = lookup (outgoing s) target @ lookup (outgoing s) src \<and>
         length (lookup (incoming s') target) =
           length (lookup (incoming s) target) + length (lookup (incoming s) src) \<and>
         (\<forall>e. e \<noteq> src \<and> e \<noteq> target \<longrightarrow>
              incoming s' e = incoming s e \<and> outgoing s' e = outgoing s e) \<and>
         target \<in> waitq s' \<and>
         waitq s \<subseteq> waitq s' \<and>
         waitq s' \<subseteq>
           waitq s \<union> {target} \<union>
           {e. \<exists>p\<in>set (lookup (outgoing s) src). Target (pipes s' p) = Some e} \<and>
         (\<forall>p\<in>set (lookup (outgoing s) src).
            \<not> Canceled (req (pipes s p)) \<and>
            OnReceiveCompletion (pipes s p) = Some signalTarget \<longrightarrow>
            (\<forall>e. Target (pipes s' p) = Some e \<longrightarrow> e \<in> waitq s')) \<and>
         (queue_inv s \<longrightarrow>
            queue_inv s' \<and> count_list (queue s') target = 1 \<and>
            (\<exists>ys. queue s' = queue s @ ys))"
proof -
  let ?r = "rewired target src s"
  from ok obtain exps where
    s': "s' = (signal target ?r)
            \<lparr>edges := (edges s)(target := (edges s target)\<lparr>secondaryExporters := exps\<rparr>)\<rparr>"
    by (rule mergeTo_success)
  have inc: "incoming s' = incoming ?r" and out: "outgoing s' = outgoing ?r"
    and pp: "pipes s' = pipes ?r" and w: "waitq s' = insert target (waitq ?r)"
    by (simp_all add: s' signal_frame signal_waitq)
  have a: "\<forall>p\<in>set (lookup (incoming s) src).
            Target (pipes s' p) = Some target \<and> p \<in> set (lookup (incoming s') target)"
    by (simp add: inc pp rewired_pipes rewired_incoming(2)[OF ne])
  have b: "\<forall>p\<in>set (lookup (outgoing s) src).
            From (pipes s' p) = Some target \<and> p \<in> set (lookup (outgoing s') target) \<and>
            Canceled (req (pipes s' p))"
    by (simp add: out pp rewired_pipes rewired_outgoing(2)[OF ne])
  have c: "incoming s' src = None \<and> outgoing s' src = None"
    by (simp add: inc out rewired_incoming rewired_outgoing)
  have d: "lookup (incoming s') target = lookup (incoming s) target @ lookup (incoming s) src"
    by (simp add: inc rewired_incoming(2)[OF ne])
  have e: "lookup (outgoing s') target = lookup (outgoing s) target @ lookup (outgoing s) src"
    by (simp add: out rewired_outgoing(2)[OF ne])
  have f: "\<forall>e. e \<noteq> src \<and> e \<noteq> target \<longrightarrow>
              incoming s' e = incoming s e \<and> outgoing s' e = outgoing s e"
    by (simp add: inc out rewired_incoming rewired_outgoing)
  have mono: "waitq s \<subseteq> waitq ?r"
    using merge_outgoing_waitq_mono[of "merge_incoming target (lookup (incoming s) src) s"]
    by (simp add: rewired_def Let_def merge_incoming_closed)
  have h1: "target \<in> waitq s' \<and> waitq s \<subseteq> waitq s'" using w mono by auto
  have h2: "waitq s' \<subseteq>
           waitq s \<union> {target} \<union>
           {e. \<exists>p\<in>set (lookup (outgoing s) src). Target (pipes s' p) = Some e}"
    unfolding w pp using rewired_waitq(1)[of target src s] by auto
  have h3: "\<forall>p\<in>set (lookup (outgoing s) src).
            \<not> Canceled (req (pipes s p)) \<and>
            OnReceiveCompletion (pipes s p) = Some signalTarget \<longrightarrow>
            (\<forall>e. Target (pipes s' p) = Some e \<longrightarrow> e \<in> waitq s')"
    unfolding w pp using rewired_waitq(2)[of _ s src target] by blast
  have g: "queue_inv s \<longrightarrow>
            queue_inv s' \<and> count_list (queue s') target = 1 \<and>
            (\<exists>ys. queue s' = queue s @ ys)"
  proof
    assume inv: "queue_inv s"
    have r: "queue_extends s ?r" using inv by (rule rewired_queue)
    then have "queue_inv ?r" by (simp add: queue_extends_def)
    then have "queue_extends ?r (signal target ?r)" by (rule queue_extends_signal)
    with r have x: "queue_extends s (signal target ?r)" by (rule queue_extends_trans)
    have s'q: "queue_inv s' = queue_inv (signal target ?r)" "queue s' = queue (signal target ?r)"
      using queue_fields_cong[of s' "signal target ?r"] by (simp_all add: s')
    from x s'q have i': "queue_inv s'" and ex: "\<exists>ys. queue s' = queue s @ ys"
      by (simp_all add: queue_extends_def)
    from waitq_count[OF i', of target] h1 have "count_list (queue s') target = 1" by simp
    with i' ex
    show "queue_inv s' \<and> count_list (queue s') target = 1 \<and> (\<exists>ys. queue s' = queue s @ ys)"
      by simp
  qed
  from a b c d e f g h1 h2 h3 show ?thesis by simp
qed

lemma sched1_export:
  "export_deps (edges sched1 1) 0 (deps (edges sched1 1)) (secondaryExporters (edges sched1 2)) =
     Inr [\<lparr>index = 0, cacheKey = \<lparr>Selector = ''sel'', CacheKey = ''k1''\<rparr>\<rparr>,
          \<lparr>index = 0, cacheKey = \<lparr>Selector = ''sel'', CacheKey = ''k2''\<rparr>\<rparr>,
          \<lparr>index = 0, cacheKey = \<lparr>Selector = [], CacheKey = ''slow''\<rparr>\<rparr>,
          \<lparr>index = 0, cacheKey = \<lparr>Selector = ''sel'', CacheKey = ''res''\<rparr>\<rparr>]"
  by (simp add: sched1_def edgeA_def edgeB_def export_dep_def dep_selector_def)

lemma sched1_merge: "mergeTo 2 1 sched1 = Inr (True, merged1)"
proof -
  have g: "IgnoreCache (Options (Vertex (edge (edges sched1 2))))"
    by (simp add: sched1_def edgeB_def)
  show ?thesis
    unfolding merged1_def mergeTo_unfold sched1_export using g by simp
qed

lemma merged1_queue: "queue merged1 = [3, 2]"
proof -
  let ?s1 = "merge_incoming 2 (lookup (incoming sched1) 1) sched1"
  have q: "queue (signal 2 (rewired 2 1 sched1)) = [3, 2]"
    by (simp add: rewired_def Let_def merge_incoming_closed lookup_def sched1_def sched0_def
          NewScheduler_def pipe0_def pipe_New_def Cancel_def mark_canceled_def run_callback_def
          signal_def queue_def nodes_def)
  from sched1_merge obtain exps where
    m: "merged1 = (signal 2 (rewired 2 1 sched1))
            \<lparr>edges := (edges sched1)(2 := (edges sched1 2)\<lparr>secondaryExporters := exps\<rparr>)\<rparr>"
    by (rule mergeTo_success)
  have "queue merged1 = queue (signal 2 (rewired 2 1 sched1))"
    by (rule queue_fields_cong(2)) (simp_all add: m)
  with q show ?thesis by simp
qed

theorem mergeTo_rewires_witness:
  "mergeTo 2 1 sched1 = Inr (True, merged1) \<and> (2::nat) \<noteq> 1 \<and>
   lookup (incoming sched1) 1 = [0] \<and> lookup (outgoing sched1) 1 = [1, 2] \<and>
   lookup (incoming merged1) 2 = [0] \<and> lookup (outgoing merged1) 2 = [1, 2] \<and>
   Target (pipes merged1 0) = Some 2 \<and> From (pipes merged1 1) = Some 2 \<and>
   Canceled (req (pipes merged1 1)) \<and> Canceled (req (pipes merged1 2)) \<and>
   incoming merged1 1 = None \<and> outgoing merged1 1 = None \<and>
   2 \<in> waitq merged1 \<and> 3 \<in> waitq merged1 \<and> queue_inv merged1 \<and>
   queue merged1 = [3, 2]"
proof -
  have l: "lookup (incoming sched1) 1 = [0]" "lookup (outgoing sched1) 1 = [1, 2]"
    "lookup (incoming sched1) 2 = []" "lookup (outgoing sched1) 2 = []"
    by (simp_all add: sched1_def lookup_def)
  have q: "queue_inv sched1" "queue sched1 = []" "waitq sched1 = {}"
    by (simp_all add: sched1_def sched0_def NewScheduler_def queue_inv_def queue_def nodes_def)
  have p: "\<not> Canceled (req (pipes sched1 1))"
    "OnReceiveCompletion (pipes sched1 1) = Some signalTarget"
    "Target (pipes sched1 1) = Some 3"
    by (simp_all add: sched1_def pipe0_def pipe_New_def)
  have ne: "(2::nat) \<noteq> 1" by simp
  note t = mergeTo_rewires[OF sched1_merge ne]
  have tg: "Target (pipes merged1 1) = Some 3"
  proof -
    from sched1_merge obtain exps where
      m: "merged1 = (signal 2 (rewired 2 1 sched1))
            \<lparr>edges := (edges sched1)(2 := (edges sched1 2)\<lparr>secondaryExporters := exps\<rparr>)\<rparr>"
      by (rule mergeTo_success)
    have "Target (pipes merged1 1) =
               Target (pipes (merge_incoming 2 (lookup (incoming sched1) 1) sched1) 1)"
      by (simp add: m signal_frame rewired_def Let_def merge_outgoing_frame)
    then show ?thesis using l p by (simp add: merge_incoming_closed)
  qed
  have wake: "3 \<in> waitq merged1" using t l p tg by simp
  show ?thesis
    using t sched1_merge l q wake merged1_queue by simp
qed

lemma export_keys_closed:
  "export_keys src i ks acc = Inr r \<Longrightarrow>
     r = acc @ map (\<lambda>k. \<lparr>index = i, cacheKey = \<lparr>Selector = selector_of src i, CacheKey = k\<rparr>\<rparr>) ks \<and>
     (ks \<noteq> [] \<longrightarrow> (\<exists>sel. dep_selector src i = Inr sel))"
proof (induction ks arbitrary: acc)
  case Nil
  then show ?case by simp
next
  case (Cons k ks)
  from Cons.prems obtain sel where sel: "dep_selector src i = Inr sel"
    by (auto split: sum.splits)
  with Cons.prems have
    "export_keys src i ks (acc @ [\<lparr>index = i, cacheKey = \<lparr>Selector = sel, CacheKey = k\<rparr>\<rparr>]) = Inr r"
    by simp
  from Cons.IH[OF this] sel show ?case by (simp add: selector_of_def)
qed

lemma export_dep_closed:
  assumes "export_dep src i d acc = Inr r"
  shows "r = acc @ exported_by_dep src i d"
    and "needs_selector d \<longrightarrow> (\<exists>sel. dep_selector src i = Inr sel)"
proof -
  from assms obtain acc1 where k: "export_keys src i (keys d) acc = Inr acc1"
    by (auto simp: export_dep_def split: sum.splits)
  note kc = export_keys_closed[OF k]
  from assms k show "r = acc @ exported_by_dep src i d"
    using kc
    by (auto simp: export_dep_def exported_by_dep_def selector_of_def Let_def
          split: option.splits sum.splits)
  from assms k show "needs_selector d \<longrightarrow> (\<exists>sel. dep_selector src i = Inr sel)"
    using kc
    by (auto simp: export_dep_def needs_selector_def Let_def split: option.splits sum.splits)
qed

lemma export_deps_closed:
  "export_deps src i ds acc = Inr r \<Longrightarrow>
     r = acc @ exported_by_deps src i ds \<and>
     (\<forall>j<length ds. needs_selector (ds ! j) \<longrightarrow> (\<exists>sel. dep_selector src (i + j) = Inr sel))"
proof (induction ds arbitrary: i acc)
  case Nil
  then show ?case by simp
next
  case (Cons d ds)
  from Cons.prems obtain acc1 where d: "export_dep src i d acc = Inr acc1"
    and rest: "export_deps src (Suc i) ds acc1 = Inr r"
    by (auto split: sum.splits)
  note dc = export_dep_closed[OF d] and ih = Cons.IH[OF rest]
  have "r = acc @ exported_by_deps src i (d # ds)" using dc(1) ih by simp
  moreover have "\<forall>j<length (d # ds). needs_selector ((d # ds) ! j) \<longrightarrow>
                   (\<exists>sel. dep_selector src (i + j) = Inr sel)"
  proof (intro allI impI)
    fix j assume "j < length (d # ds)" "needs_selector ((d # ds) ! j)"
    then show "\<exists>sel. dep_selector src (i + j) = Inr sel"
      using dc(2) ih by (cases j) auto
  qed
  ultimately show ?case by simp
qed

lemma dep_selector_Inr:
  "dep_selector src i = Inr sel \<Longrightarrow>
     \<exists>m. cacheMap src = Some m \<and> i < length (Deps m) \<and> sel = Deps m ! i \<and> selector_of src i = sel"
  by (auto simp: dep_selector_def selector_of_def split: option.splits if_splits)


lemma mergeTo_exporters:
  assumes "mergeTo target src s = Inr (True, s')"
  shows "secondaryExporters (edges s' target) =
           secondaryExporters (edges s target) @
           exported_by_deps (edges s src) 0 (deps (edges s src))"
    and "\<forall>i<length (deps (edges s src)). needs_selector (deps (edges s src) ! i) \<longrightarrow>
           (\<exists>sel. dep_selector (edges s src) i = Inr sel)"
    and "e \<noteq> target \<Longrightarrow> edges s' e = edges s e"
proof -
  from assms obtain exps where
    x: "export_deps (edges s src) 0 (deps (edges s src)) (secondaryExporters (edges s target)) = Inr exps"
    and s': "s' = (signal target (rewired target src s))
            \<lparr>edges := (edges s)(target := (edges s target)\<lparr>secondaryExporters := exps\<rparr>)\<rparr>"
    by (rule mergeTo_success)
  from export_deps_closed[OF x] s'
  show "secondaryExporters (edges s' target) =
           secondaryExporters (edges s target) @
           exported_by_deps (edges s src) 0 (deps (edges s src))"
    and "\<forall>i<length (deps (edges s src)). needs_selector (deps (edges s src) ! i) \<longrightarrow>
           (\<exists>sel. dep_selector (edges s src) i = Inr sel)"
    by simp_all
  show "e \<noteq> target \<Longrightarrow> edges s' e = edges s e" using s' by simp
qed

text \<open>
  C6, as the code does it. After a successful \<open>mergeTo(target, src)\<close>,
  \<open>target.secondaryExporters\<close> is its former value followed, for each dependency
  \<open>i\<close> of \<open>src\<close> in order, by an entry for each direct key with the selector of
  dependency \<open>i\<close>, an entry for the slow-cache key (when present) with the empty
  selector, and an entry for the cache key of the result (when present) with the
  selector of dependency \<open>i\<close>; wherever a selector is used, it is
  \<open>src.cacheMap.Deps[i].Selector\<close>.
\<close>

theorem mergeTo_folds_dep_keys:
  assumes "mergeTo target src s = Inr (True, s')"
  shows "secondaryExporters (edges s' target) =
           secondaryExporters (edges s target) @
           exported_by_deps (edges s src) 0 (deps (edges s src)) \<and>
         (\<forall>i<length (deps (edges s src)). needs_selector (deps (edges s src) ! i) \<longrightarrow>
            (\<exists>m. cacheMap (edges s src) = Some m \<and> i < length (Deps m) \<and>
                 selector_of (edges s src) i = Deps m ! i))"
  using mergeTo_exporters(1,2)[OF assms] by (auto dest!: dep_selector_Inr)

lemma merged1_exporters:
  "secondaryExporters (edges merged1 2) =
     [\<lparr>index = 0, cacheKey = \<lparr>Selector = ''sel'', CacheKey = ''k1''\<rparr>\<rparr>,
      \<lparr>index = 0, cacheKey = \<lparr>Selector = ''sel'', CacheKey = ''k2''\<rparr>\<rparr>,
      \<lparr>index = 0, cacheKey = \<lparr>Selector = [], CacheKey = ''slow''\<rparr>\<rparr>,
      \<lparr>index = 0, cacheKey = \<lparr>Selector = ''sel'', CacheKey = ''res''\<rparr>\<rparr>]"
proof -
  from sched1_merge obtain exps where
    x: "export_deps (edges sched1 1) 0 (deps (edges sched1 1)) (secondaryExporters (edges sched1 2)) = Inr exps"
    and s': "merged1 = (signal 2 (rewired 2 1 sched1))
            \<lparr>edges := (edges sched1)(2 := (edges sched1 2)\<lparr>secondaryExporters := exps\<rparr>)\<rparr>"
    by (rule mergeTo_success)
  from x have e: "exps = [\<lparr>index = 0, cacheKey = \<lparr>Selector = ''sel'', CacheKey = ''k1''\<rparr>\<rparr>,
      \<lparr>index = 0, cacheKey = \<lparr>Selector = ''sel'', CacheKey = ''k2''\<rparr>\<rparr>,
      \<lparr>index = 0, cacheKey = \<lparr>Selector = [], CacheKey = ''slow''\<rparr>\<rparr>,
      \<lparr>index = 0, cacheKey = \<lparr>Selector = ''sel'', CacheKey = ''res''\<rparr>\<rparr>]"
    unfolding sched1_export by simp
  show ?thesis by (subst s') (simp add: e)
qed

theorem mergeTo_folds_dep_keys_witness:
  "mergeTo 2 1 sched1 = Inr (True, merged1) \<and>
   secondaryExporters (edges merged1 2) =
     secondaryExporters (edges sched1 2) @
     [\<lparr>index = 0, cacheKey = \<lparr>Selector = ''sel'', CacheKey = ''k1''\<rparr>\<rparr>,
      \<lparr>index = 0, cacheKey = \<lparr>Selector = ''sel'', CacheKey = ''k2''\<rparr>\<rparr>,
      \<lparr>index = 0, cacheKey = \<lparr>Selector = [], CacheKey = ''slow''\<rparr>\<rparr>,
      \<lparr>index = 0, cacheKey = \<lparr>Selector = ''sel'', CacheKey = ''res''\<rparr>\<rparr>]"
proof -
  have e: "exported_by_deps (edges sched1 1) 0 (deps (edges sched1 1)) =
     [\<lparr>index = 0, cacheKey = \<lparr>Selector = ''sel'', CacheKey = ''k1''\<rparr>\<rparr>,
      \<lparr>index = 0, cacheKey = \<lparr>Selector = ''sel'', CacheKey = ''k2''\<rparr>\<rparr>,
      \<lparr>index = 0, cacheKey = \<lparr>Selector = [], CacheKey = ''slow''\<rparr>\<rparr>,
      \<lparr>index = 0, cacheKey = \<lparr>Selector = ''sel'', CacheKey = ''res''\<rparr>\<rparr>]"
    by (simp add: sched1_def edgeA_def exported_by_dep_def selector_of_def dep_selector_def)
  show ?thesis
    using mergeTo_folds_dep_keys[OF sched1_merge] sched1_merge e by simp
qed

text \<open>
  The entry of a slow-cache key does not carry the selector of its dependency: in
  the sample graph dependency 0 of edge 1 has selector \<open>sel\<close> and slow-cache key
  \<open>slow\<close>; the merge appends the key with the empty selector, not with \<open>sel\<close>.
\<close>

theorem mergeTo_slow_key_selector_counterexample:
  "mergeTo 2 1 sched1 = Inr (True, merged1) \<and>
   slowCacheKey (deps (edges sched1 1) ! 0) = Some ''slow'' \<and>
   cacheMap (edges sched1 1) = Some \<lparr>Deps = [''sel'']\<rparr> \<and>
   \<lparr>index = 0, cacheKey = \<lparr>Selector = ''sel'', CacheKey = ''slow''\<rparr>\<rparr>
     \<notin> set (secondaryExporters (edges merged1 2)) \<and>
   \<lparr>index = 0, cacheKey = \<lparr>Selector = [], CacheKey = ''slow''\<rparr>\<rparr>
     \<in> set (secondaryExporters (edges merged1 2))"
  using sched1_merge
  by (simp add: merged1_exporters) (simp add: sched1_def edgeA_def)

lemma dep_selector_exporters:
  "dep_selector (src\<lparr>secondaryExporters := xs\<rparr>) i = dep_selector src i"
  by (simp add: dep_selector_def)

lemma export_keys_exporters:
  "export_keys (src\<lparr>secondaryExporters := xs\<rparr>) i ks acc = export_keys src i ks acc"
  by (induction ks arbitrary: acc) (simp_all add: dep_selector_exporters cong: sum.case_cong)

lemma export_dep_exporters:
  "export_dep (src\<lparr>secondaryExporters := xs\<rparr>) i d acc = export_dep src i d acc"
  unfolding export_dep_def export_keys_exporters dep_selector_exporters ..

lemma export_deps_exporters:
  "export_deps (src\<lparr>secondaryExporters := xs\<rparr>) i ds acc = export_deps src i ds acc"
  by (induction ds arbitrary: i acc)
     (simp_all add: export_dep_exporters cong: sum.case_cong)

text \<open>
  C10. In a successful \<open>mergeTo(target, src)\<close> between two different edges, what
  is appended to \<open>target.secondaryExporters\<close> is computed from the dependencies of
  \<open>src\<close> (and the selectors of its cache map); the list \<open>src.secondaryExporters\<close>
  stays with \<open>src\<close>, and whatever it holds the merge succeeds alike and leaves
  \<open>target\<close> with the same list: exporters that \<open>src\<close> inherited from an earlier
  merge do not reach \<open>target\<close>.
\<close>

theorem mergeTo_ignores_src_exporters:
  assumes ok: "mergeTo target src s = Inr (True, s')" and ne: "target \<noteq> src"
  shows "secondaryExporters (edges s' target) =
           secondaryExporters (edges s target) @
           exported_by_deps (edges s src) 0 (deps (edges s src)) \<and>
         secondaryExporters (edges s' src) = secondaryExporters (edges s src) \<and>
         (\<forall>xs. \<exists>t'.
            mergeTo target src
              (s\<lparr>edges := (edges s)(src := (edges s src)\<lparr>secondaryExporters := xs\<rparr>)\<rparr>) =
              Inr (True, t') \<and>
            secondaryExporters (edges t' target) = secondaryExporters (edges s' target))"
proof -
  from ok obtain exps where
    x: "export_deps (edges s src) 0 (deps (edges s src)) (secondaryExporters (edges s target)) = Inr exps"
    and s': "s' = (signal target (rewired target src s))
            \<lparr>edges := (edges s)(target := (edges s target)\<lparr>secondaryExporters := exps\<rparr>)\<rparr>"
    by (rule mergeTo_success)
  from ok have guard: "\<not> (\<not> IgnoreCache (Options (Vertex (edge (edges s target)))) \<and>
         IgnoreCache (Options (Vertex (edge (edges s src)))))"
    unfolding mergeTo_unfold by (auto split: if_splits)
  have a: "secondaryExporters (edges s' target) = exps" using s' by simp
  have b: "secondaryExporters (edges s' src) = secondaryExporters (edges s src)"
    using mergeTo_exporters(3)[OF ok, of src] ne by simp
  have c: "\<exists>t'.
            mergeTo target src
              (s\<lparr>edges := (edges s)(src := (edges s src)\<lparr>secondaryExporters := xs\<rparr>)\<rparr>) =
              Inr (True, t') \<and>
            secondaryExporters (edges t' target) = exps" for xs
    unfolding mergeTo_unfold using guard ne x
    by (simp add: export_deps_exporters)
  from mergeTo_exporters(1)[OF ok] a b c show ?thesis by simp
qed

theorem mergeTo_ignores_src_exporters_witness:
  "mergeTo 2 1 sched1 = Inr (True, merged1) \<and> (2::nat) \<noteq> 1 \<and>
   secondaryExporters (edges sched1 1) =
     [\<lparr>index = 0, cacheKey = \<lparr>Selector = ''old'', CacheKey = ''inherited''\<rparr>\<rparr>] \<and>
   secondaryExporters (edges merged1 1) =
     [\<lparr>index = 0, cacheKey = \<lparr>Selector = ''old'', CacheKey = ''inherited''\<rparr>\<rparr>] \<and>
   \<lparr>index = 0, cacheKey = \<lparr>Selector = ''old'', CacheKey = ''inherited''\<rparr>\<rparr>
     \<notin> set (secondaryExporters (edges merged1 2))"
proof -
  have ne: "(2::nat) \<noteq> 1" by simp
  have i: "secondaryExporters (edges sched1 1) =
     [\<lparr>index = 0, cacheKey = \<lparr>Selector = ''old'', CacheKey = ''inherited''\<rparr>\<rparr>]"
    by (simp add: sched1_def edgeA_def)
  have keep: "secondaryExporters (edges merged1 1) = secondaryExporters (edges sched1 1)"
    using mergeTo_ignores_src_exporters[OF sched1_merge ne] by blast
  have gone: "\<lparr>index = 0, cacheKey = \<lparr>Selector = ''old'', CacheKey = ''inherited''\<rparr>\<rparr>
     \<notin> set (secondaryExporters (edges merged1 2))"
    by (simp add: merged1_exporters)
  show ?thesis
    using sched1_merge i keep gone by simp
qed

section \<open>Properties of the merge phase and of the exit check\<close>

lemma mergeTo_result:
  assumes "mergeTo t src s = Inr (b, s2)"
  shows "if b then incoming s2 src = None \<and> outgoing s2 src = None else s2 = s"
    and "ef s2 = ef s" and "edgeIndex s2 = edgeIndex s"
    and "edge (edges s2 a) = edge (edges s a)"
    and "keysDidChange (edges s2 a) = keysDidChange (edges s a)"
proof -
  consider (refused) "b = False" "s2 = s"
    | (merged) exps where "b = True"
        "s2 = (signal t (rewired t src s))
                \<lparr>edges := (edges s)(t := (edges s t)\<lparr>secondaryExporters := exps\<rparr>)\<rparr>"
    using assms unfolding mergeTo_unfold by (auto split: if_splits sum.splits)
  note cases = this
  show "if b then incoming s2 src = None \<and> outgoing s2 src = None else s2 = s"
    by (cases rule: cases) (simp_all add: signal_frame rewired_incoming rewired_outgoing)
  show "ef s2 = ef s"
    by (cases rule: cases) (simp_all add: signal_frame rewired_frame)
  show "edgeIndex s2 = edgeIndex s"
    by (cases rule: cases) (simp_all add: signal_frame rewired_frame)
  show "edge (edges s2 a) = edge (edges s a)"
    by (cases rule: cases) simp_all
  show "keysDidChange (edges s2 a) = keysDidChange (edges s a)"
    by (cases rule: cases) simp_all
qed

lemma export_keys_panics: "export_keys src i ks acc = Inl err \<Longrightarrow> \<exists>m. err = Panic m"
  by (induction ks arbitrary: acc)
     (auto simp: dep_selector_def split: sum.splits option.splits if_splits)

lemma export_dep_panics: "export_dep src i d acc = Inl err \<Longrightarrow> \<exists>m. err = Panic m"
  by (auto simp: export_dep_def dep_selector_def Let_def dest: export_keys_panics
        split: sum.splits option.splits if_splits)

lemma export_deps_panics: "export_deps src i ds acc = Inl err \<Longrightarrow> \<exists>m. err = Panic m"
  by (induction ds arbitrary: i acc) (auto dest: export_dep_panics split: sum.splits)

lemma mergeTo_panics: "mergeTo t src s = Inl err \<Longrightarrow> \<exists>m. err = Panic m"
  unfolding mergeTo_unfold by (auto dest: export_deps_panics split: if_splits sum.splits)

lemma dispatch_merge_cases:
  "dispatch_merge x e s =
     (if \<not> keysDidChange (edges s e) then Inr s
      else (case currentIndexKey x e s of
              None \<Rightarrow> Inr (clear_keysDidChange e s)
            | Some k \<Rightarrow>
                (case edgeIndex s k of
                   None \<Rightarrow> Inr (clear_keysDidChange e (s\<lparr>edgeIndex := (edgeIndex s)(k \<mapsto> e)\<rparr>))
                 | Some origEdge \<Rightarrow>
                     if origEdge = e then Inr (clear_keysDidChange e s)
                     else (case mergeTo origEdge e s of
                             Inl err \<Rightarrow> Inl err
                           | Inr (merged, s2) \<Rightarrow>
                               Inr (clear_keysDidChange e
                                      (if merged then SetEdge (edge (edges s2 e)) origEdge s2
                                       else s2))))))"
  by (simp add: dispatch_merge_def LoadOrStore_def clear_keysDidChange_def
        split: option.splits sum.splits prod.splits)


lemma clear_frame:
  "keysDidChange (edges (clear_keysDidChange e s) e) = False"
  "incoming (clear_keysDidChange e s) = incoming s"
  "outgoing (clear_keysDidChange e s) = outgoing s"
  "pipes (clear_keysDidChange e s) = pipes s"
  "waitq (clear_keysDidChange e s) = waitq s"
  "ef (clear_keysDidChange e s) = ef s"
  "edgeIndex (clear_keysDidChange e s) = edgeIndex s"
  "secondaryExporters (edges (clear_keysDidChange e s) a) = secondaryExporters (edges s a)"
  by (simp_all add: clear_keysDidChange_def)

lemma SetEdge_frame:
  "incoming (SetEdge d o' s) = incoming s" "outgoing (SetEdge d o' s) = outgoing s"
  "pipes (SetEdge d o' s) = pipes s" "waitq (SetEdge d o' s) = waitq s"
  "edges (SetEdge d o' s) = edges s" "edgeIndex (SetEdge d o' s) = edgeIndex s"
  "ef (SetEdge d o' s) = (ef s)(d \<mapsto> o')"
  by (simp_all add: SetEdge_def)

lemma dispatch_merge_clears:
  assumes "dispatch_merge x e s = Inr s'"
  shows "\<not> keysDidChange (edges s' e)"
proof (cases "keysDidChange (edges s e)")
  case False
  with assms show ?thesis by (simp add: dispatch_merge_cases)
next
  case True
  with assms obtain t where "s' = clear_keysDidChange e t"
    unfolding dispatch_merge_cases
    by (auto split: option.splits if_splits sum.splits prod.splits)
  then show ?thesis by (simp add: clear_frame)
qed

lemma dispatch_merge_maps:
  assumes "dispatch_merge x e s = Inr s'"
  shows "(incoming s' = incoming s \<and> outgoing s' = outgoing s) \<or>
         (incoming s' e = None \<and> outgoing s' e = None)"
proof (cases "keysDidChange (edges s e)")
  case False
  with assms show ?thesis by (simp add: dispatch_merge_cases)
next
  case True
  note kc = this
  show ?thesis
  proof (cases "\<exists>k o'. currentIndexKey x e s = Some k \<and> edgeIndex s k = Some o' \<and> o' \<noteq> e")
    case False
    with assms kc show ?thesis
      unfolding dispatch_merge_cases
      by (auto simp: clear_frame split: option.splits if_splits)
  next
    case True
    then obtain k o' where k: "currentIndexKey x e s = Some k" "edgeIndex s k = Some o'" "o' \<noteq> e"
      by blast
    from assms kc k obtain merged s2 where m: "mergeTo o' e s = Inr (merged, s2)"
      and s': "s' = clear_keysDidChange e (if merged then SetEdge (edge (edges s2 e)) o' s2 else s2)"
      unfolding dispatch_merge_cases by (auto split: sum.splits)
    from mergeTo_result(1)[OF m] s' show ?thesis
      by (cases merged) (simp_all add: clear_frame SetEdge_frame)
  qed
qed

lemma dispatch_merge_panics:
  assumes "dispatch_merge x e s = Inl err"
  shows "\<exists>m. err = Panic m"
  using assms unfolding dispatch_merge_cases
  by (auto dest: mergeTo_panics split: option.splits if_splits sum.splits prod.splits)

lemma dispatch_prune_lookup:
  "lookup (incoming (snd (snd (dispatch_prune e s)))) e = fst (dispatch_prune e s)"
  "lookup (outgoing (snd (snd (dispatch_prune e s)))) e = fst (snd (dispatch_prune e s))"
  by (simp_all add: dispatch_prune_def Let_def lookup_simps)

lemma dispatch_finish_Inr:
  assumes "dispatch_finish x e s = Inr s'"
  shows "dispatch_merge x e (snd (snd (dispatch_prune e s))) = Inr s'"
    and "(fst (dispatch_prune e s) = []) = (fst (snd (dispatch_prune e s)) = [])"
  using assms
  by (auto simp: dispatch_finish_def split: prod.splits sum.splits if_splits)

lemma dispatch_Inr:
  assumes "dispatch x e s = Inr s'"
  obtains s2 where "dispatch_finish x e s2 = Inr s'"
  using assms by (auto simp: dispatch_def split: prod.splits sum.splits)

lemma dispatch_finish_balanced:
  assumes "dispatch_finish x e s = Inr s'"
  shows "(lookup (incoming s') e = []) = (lookup (outgoing s') e = [])"
proof -
  let ?s1 = "snd (snd (dispatch_prune e s))"
  note f = dispatch_finish_Inr[OF assms]
  from dispatch_merge_maps[OF f(1)] show ?thesis
  proof
    assume "incoming s' = incoming ?s1 \<and> outgoing s' = outgoing ?s1"
    then show ?thesis using f(2) by (simp add: dispatch_prune_lookup)
  next
    assume "incoming s' e = None \<and> outgoing s' e = None"
    then show ?thesis by (simp add: lookup_simps)
  qed
qed

text \<open>
  C2. When \<open>dispatch\<close> of an edge returns, its pruned incoming and outgoing lists
  are both empty or both non-empty, and so are \<open>incoming[e]\<close> and \<open>outgoing[e]\<close> in
  the state it leaves; when exactly one of the pruned lists is empty the step does
  not return but panics.
\<close>

theorem dispatch_never_half_open:
  "(\<forall>s'. dispatch_finish x e s = Inr s' \<longrightarrow>
       (fst (dispatch_prune e s) = []) = (fst (snd (dispatch_prune e s)) = []) \<and>
       (lookup (incoming s') e = []) = (lookup (outgoing s') e = [])) \<and>
   ((fst (dispatch_prune e s) = []) \<noteq> (fst (snd (dispatch_prune e s)) = []) \<longrightarrow>
       (\<exists>m. dispatch_finish x e s = Inl (Panic m))) \<and>
   (\<forall>s'. dispatch x e s = Inr s' \<longrightarrow>
       (lookup (incoming s') e = []) = (lookup (outgoing s') e = []))"
proof -
  have a: "\<forall>s'. dispatch_finish x e s = Inr s' \<longrightarrow>
       (fst (dispatch_prune e s) = []) = (fst (snd (dispatch_prune e s)) = []) \<and>
       (lookup (incoming s') e = []) = (lookup (outgoing s') e = [])"
    using dispatch_finish_Inr(2) dispatch_finish_balanced by blast
  have b: "(fst (dispatch_prune e s) = []) \<noteq> (fst (snd (dispatch_prune e s)) = []) \<longrightarrow>
       (\<exists>m. dispatch_finish x e s = Inl (Panic m))"
  proof
    assume h: "(fst (dispatch_prune e s) = []) \<noteq> (fst (snd (dispatch_prune e s)) = [])"
    show "\<exists>m. dispatch_finish x e s = Inl (Panic m)"
    proof (cases "dispatch_merge x e (snd (snd (dispatch_prune e s)))")
      case (Inl err)
      with dispatch_merge_panics[OF Inl] show ?thesis
        by (auto simp: dispatch_finish_def split: prod.splits)
    next
      case (Inr s2)
      with h show ?thesis
        by (auto simp: dispatch_finish_def split: prod.splits)
    qed
  qed
  have c: "\<forall>s'. dispatch x e s = Inr s' \<longrightarrow>
       (lookup (incoming s') e = []) = (lookup (outgoing s') e = [])"
    by (auto elim!: dispatch_Inr dest: dispatch_finish_balanced)
  from a b c show ?thesis by blast
qed

lemma dispatch_finish_unfold:
  "dispatch_finish x e s =
     (case dispatch_merge x e (snd (snd (dispatch_prune e s))) of
        Inl err \<Rightarrow> Inl err
      | Inr s2 \<Rightarrow>
          if fst (dispatch_prune e s) \<noteq> [] \<and> fst (snd (dispatch_prune e s)) = []
          then Inl (Panic ''invalid dispatch: return leaving incoming open'')
          else if fst (dispatch_prune e s) = [] \<and> fst (snd (dispatch_prune e s)) \<noteq> []
          then Inl (Panic ''invalid dispatch: return leaving outgoing open'')
          else Inr s2)"
  by (cases "dispatch_prune e s") (auto simp: dispatch_finish_def split: sum.splits)

theorem dispatch_never_half_open_witness:
  "dispatch_finish ext1 3 sched1 = Inr (snd (snd (dispatch_prune 3 sched1))) \<and>
   fst (dispatch_prune 3 sched1) = [] \<and> fst (snd (dispatch_prune 3 sched1)) = [] \<and>
   lookup (incoming (snd (snd (dispatch_prune 3 sched1)))) 3 = [] \<and>
   lookup (outgoing (snd (snd (dispatch_prune 3 sched1)))) 3 = [] \<and>
   fst (dispatch_prune 1 half_open) = [0] \<and> fst (snd (dispatch_prune 1 half_open)) = [] \<and>
   (\<exists>m. dispatch_finish ext1 1 half_open = Inl (Panic m))"
proof -
  have p3: "fst (dispatch_prune 3 sched1) = []" "fst (snd (dispatch_prune 3 sched1)) = []"
    by (simp_all add: dispatch_prune_def Let_def sched1_def lookup_def pipe0_def pipe_New_def)
  have k3: "\<not> keysDidChange (edges (snd (snd (dispatch_prune 3 sched1))) 3)"
    by (simp add: dispatch_prune_def Let_def sched1_def edge0_def)
  have f3: "dispatch_finish ext1 3 sched1 = Inr (snd (snd (dispatch_prune 3 sched1)))"
    using p3 k3 by (simp add: dispatch_finish_unfold dispatch_merge_cases)
  have p1: "fst (dispatch_prune 1 half_open) = [0]" "fst (snd (dispatch_prune 1 half_open)) = []"
    by (simp_all add: dispatch_prune_def Let_def half_open_def sched1_def lookup_def
          pipe0_def pipe_New_def)
  show ?thesis
    using dispatch_never_half_open[of ext1 3 sched1] dispatch_never_half_open[of ext1 1 half_open]
      f3 p3 p1 dispatch_prune_lookup[of 3 sched1]
    by simp
qed

lemma no_merge_clear: "no_merge s (clear_keysDidChange e s)"
  by (simp add: no_merge_def clear_frame)

text \<open>
  C5. The merge phase of \<open>dispatch\<close>. When \<open>keysDidChange\<close> is not set or the edge
  has no index key, nothing but the flag changes. When it is set and the key is
  \<open>k\<close>: with no edge registered for \<open>k\<close> the edge is registered and nothing is
  merged; with the edge itself registered nothing is merged; with another edge
  \<open>origEdge\<close> registered, \<open>mergeTo(origEdge, e)\<close> is run on the state: its panic is
  the panic of the step, and otherwise the step leaves the maps, pipes and queue as
  the merge left them and the factory maps \<open>e.edge\<close> to \<open>origEdge\<close> if the merge
  returned true and is unchanged if it returned false. In every case that returns,
  \<open>keysDidChange\<close> of the edge is false, also at the end of the whole \<open>dispatch\<close>.
  \<open>dispatch\<close> runs this phase: it passes the state of the receive loop to
  \<open>unpark\<close>, fails with it, and otherwise prunes the state \<open>unpark\<close> returned,
  runs the merge phase on the pruned state and returns its result unless the exit
  check panics.
\<close>

theorem dispatch_merge_on_key_change:
  "(\<not> keysDidChange (edges s e) \<or> currentIndexKey x e s = None \<longrightarrow>
      (\<exists>s'. dispatch_merge x e s = Inr s' \<and> \<not> keysDidChange (edges s' e) \<and>
            edgeIndex s' = edgeIndex s \<and> no_merge s s')) \<and>
   (keysDidChange (edges s e) \<and> currentIndexKey x e s = Some k \<longrightarrow>
      (case edgeIndex s k of
         None \<Rightarrow>
           \<exists>s'. dispatch_merge x e s = Inr s' \<and> \<not> keysDidChange (edges s' e) \<and>
                edgeIndex s' = (edgeIndex s)(k \<mapsto> e) \<and> no_merge s s'
       | Some origEdge \<Rightarrow>
           if origEdge = e then
             \<exists>s'. dispatch_merge x e s = Inr s' \<and> \<not> keysDidChange (edges s' e) \<and>
                  edgeIndex s' = edgeIndex s \<and> no_merge s s'
           else
             (case mergeTo origEdge e s of
                Inl err \<Rightarrow> dispatch_merge x e s = Inl err
              | Inr (merged, s2) \<Rightarrow>
                  \<exists>s'. dispatch_merge x e s = Inr s' \<and> \<not> keysDidChange (edges s' e) \<and>
                       edgeIndex s' = edgeIndex s \<and>
                       ef s' = (if merged then (ef s)(edge (edges s e) \<mapsto> origEdge) else ef s) \<and>
                       incoming s' = incoming s2 \<and> outgoing s' = outgoing s2 \<and>
                       pipes s' = pipes s2 \<and> waitq s' = waitq s2 \<and>
                       (\<forall>a. secondaryExporters (edges s' a) = secondaryExporters (edges s2 a))))) \<and>
   (\<forall>s'. dispatch x e s = Inr s' \<longrightarrow> \<not> keysDidChange (edges s' e)) \<and>
   dispatch_finish x e s =
     (case dispatch_merge x e (snd (snd (dispatch_prune e s))) of
        Inl err \<Rightarrow> Inl err
      | Inr s2 \<Rightarrow>
          if fst (dispatch_prune e s) \<noteq> [] \<and> fst (snd (dispatch_prune e s)) = []
          then Inl (Panic ''invalid dispatch: return leaving incoming open'')
          else if fst (dispatch_prune e s) = [] \<and> fst (snd (dispatch_prune e s)) \<noteq> []
          then Inl (Panic ''invalid dispatch: return leaving outgoing open'')
          else Inr s2) \<and>
   dispatch x e s =
     (case unpark x e (fst (dispatch_receive e s)) (fst (snd (dispatch_receive e s)))
             (fst (snd (snd (dispatch_receive e s)))) (snd (snd (snd (dispatch_receive e s)))) of
        Inl err \<Rightarrow> Inl err
      | Inr s2 \<Rightarrow> dispatch_finish x e s2)"
proof -
  have a: "\<not> keysDidChange (edges s e) \<or> currentIndexKey x e s = None \<longrightarrow>
      (\<exists>s'. dispatch_merge x e s = Inr s' \<and> \<not> keysDidChange (edges s' e) \<and>
            edgeIndex s' = edgeIndex s \<and> no_merge s s')"
    by (auto simp: dispatch_merge_cases clear_frame no_merge_clear no_merge_def)
  have b: "case edgeIndex s k of
         None \<Rightarrow>
           \<exists>s'. dispatch_merge x e s = Inr s' \<and> \<not> keysDidChange (edges s' e) \<and>
                edgeIndex s' = (edgeIndex s)(k \<mapsto> e) \<and> no_merge s s'
       | Some origEdge \<Rightarrow>
           if origEdge = e then
             \<exists>s'. dispatch_merge x e s = Inr s' \<and> \<not> keysDidChange (edges s' e) \<and>
                  edgeIndex s' = edgeIndex s \<and> no_merge s s'
           else
             (case mergeTo origEdge e s of
                Inl err \<Rightarrow> dispatch_merge x e s = Inl err
              | Inr (merged, s2) \<Rightarrow>
                  \<exists>s'. dispatch_merge x e s = Inr s' \<and> \<not> keysDidChange (edges s' e) \<and>
                       edgeIndex s' = edgeIndex s \<and>
                       ef s' = (if merged then (ef s)(edge (edges s e) \<mapsto> origEdge) else ef s) \<and>
                       incoming s' = incoming s2 \<and> outgoing s' = outgoing s2 \<and>
                       pipes s' = pipes s2 \<and> waitq s' = waitq s2 \<and>
                       (\<forall>a. secondaryExporters (edges s' a) = secondaryExporters (edges s2 a)))"
    if kc: "keysDidChange (edges s e)" and key: "currentIndexKey x e s = Some k"
  proof (cases "edgeIndex s k")
    case None
    with kc key show ?thesis
      by (simp add: dispatch_merge_cases clear_frame no_merge_def)
  next
    case (Some origEdge)
    show ?thesis
    proof (cases "origEdge = e")
      case True
      with Some kc key show ?thesis
        by (simp add: dispatch_merge_cases clear_frame no_merge_clear)
    next
      case False
      show ?thesis
      proof (cases "mergeTo origEdge e s")
        case (Inl err)
        with Some False kc key show ?thesis by (simp add: dispatch_merge_cases)
      next
        case (Inr r)
        obtain merged s2 where r: "r = (merged, s2)" by (cases r)
        note m = mergeTo_result[OF Inr[unfolded r]]
        from Some False kc key Inr r m(2,3,4) show ?thesis
          by (simp add: dispatch_merge_cases clear_frame SetEdge_frame)
      qed
    qed
  qed
  have c: "\<forall>s'. dispatch x e s = Inr s' \<longrightarrow> \<not> keysDidChange (edges s' e)"
    by (auto elim!: dispatch_Inr dest!: dispatch_finish_Inr(1) dispatch_merge_clears)
  have d: "dispatch x e s =
     (case unpark x e (fst (dispatch_receive e s)) (fst (snd (dispatch_receive e s)))
             (fst (snd (snd (dispatch_receive e s)))) (snd (snd (snd (dispatch_receive e s)))) of
        Inl err \<Rightarrow> Inl err
      | Inr s2 \<Rightarrow> dispatch_finish x e s2)"
    by (simp add: dispatch_def case_prod_beta)
  from a b c d dispatch_finish_unfold[of x e s] show ?thesis by blast
qed

theorem dispatch_merge_on_key_change_witness:
  "keysDidChange (edges sched1 1) \<and> currentIndexKey ext1 1 sched1 = Some ''key'' \<and>
   edgeIndex sched1 ''key'' = Some 2 \<and> mergeTo 2 1 sched1 = Inr (True, merged1) \<and>
   (\<exists>s'. dispatch_merge ext1 1 sched1 = Inr s' \<and> \<not> keysDidChange (edges s' 1) \<and>
         ef s' (edge edgeA) = Some 2 \<and> incoming s' = incoming merged1) \<and>
   (\<exists>s'. dispatch ext1 1 sched1 = Inr s' \<and> \<not> keysDidChange (edges s' 1) \<and>
         ef s' (edge edgeA) = Some 2 \<and> edgeIndex s' ''key'' = Some 2)"
proof -
  have h: "keysDidChange (edges sched1 1)" "currentIndexKey ext1 1 sched1 = Some ''key''"
    "edgeIndex sched1 ''key'' = Some 2" "edge (edges sched1 1) = edge edgeA"
    by (simp_all add: sched1_def edgeA_def ext1_def)
  have first: "\<exists>s'. dispatch_merge ext1 1 sched1 = Inr s' \<and> \<not> keysDidChange (edges s' 1) \<and>
         ef s' (edge edgeA) = Some 2 \<and> incoming s' = incoming merged1"
    using dispatch_merge_on_key_change[of sched1 1 ext1 "''key''"] h sched1_merge
    by auto
  let ?R = "snd (snd (snd (dispatch_receive 1 sched1)))"
  let ?P = "snd (snd (dispatch_prune 1 ?R))"
  have R: "lookup (incoming ?R) 1 = [0]" "lookup (outgoing ?R) 1 = [1, 2]"
    "Completed (ReceiverStatus (pipes ?R 1))" "\<not> Completed (ReceiverStatus (pipes ?R 2))"
    "\<not> Completed (SenderStatus (pipes ?R 0))"
    "edges ?R 1 = edgeA\<lparr>hasActiveOutgoing := True\<rparr>" "edges ?R 2 = edgeB"
    "edgeIndex ?R ''key'' = Some 2"
    by (simp_all add: dispatch_receive_def Let_def lookup_def sched1_def sched0_def
          NewScheduler_def Receive_def pipe0_def pipe_New_def edgeA_def)
  have u: "unpark ext1 1 (fst (dispatch_receive 1 sched1)) (fst (snd (dispatch_receive 1 sched1)))
             (fst (snd (snd (dispatch_receive 1 sched1)))) ?R = Inr ?R"
    by (simp add: ext1_def)
  have pr: "fst (dispatch_prune 1 ?R) = [0]" "fst (snd (dispatch_prune 1 ?R)) = [2]"
    using dispatch_prune_lists[of 1 ?R "fst (dispatch_prune 1 ?R)"
        "fst (snd (dispatch_prune 1 ?R))" ?P] R
    by simp_all
  have P: "keysDidChange (edges ?P 1)" "currentIndexKey ext1 1 ?P = Some ''key''"
    "edgeIndex ?P ''key'' = Some 2" "edge (edges ?P 1) = edge edgeA"
    "IgnoreCache (Options (Vertex (edge (edges ?P 2))))"
    using R by (simp_all add: dispatch_prune_frame ext1_def edgeA_def edgeB_def)
  have x: "export_deps (edges ?P 1) 0 (deps (edges ?P 1)) (secondaryExporters (edges ?P 2)) =
     Inr [\<lparr>index = 0, cacheKey = \<lparr>Selector = ''sel'', CacheKey = ''k1''\<rparr>\<rparr>,
          \<lparr>index = 0, cacheKey = \<lparr>Selector = ''sel'', CacheKey = ''k2''\<rparr>\<rparr>,
          \<lparr>index = 0, cacheKey = \<lparr>Selector = [], CacheKey = ''slow''\<rparr>\<rparr>,
          \<lparr>index = 0, cacheKey = \<lparr>Selector = ''sel'', CacheKey = ''res''\<rparr>\<rparr>]"
    using R
    by (simp add: dispatch_prune_frame edgeA_def edgeB_def export_dep_def dep_selector_def)
  have "\<exists>s2. mergeTo 2 1 ?P = Inr (True, s2)"
    unfolding mergeTo_unfold x using P(5) by simp
  then obtain s2 where m: "mergeTo 2 1 ?P = Inr (True, s2)" ..
  note t = dispatch_merge_on_key_change[of ?P 1 ext1 "''key''"]
    and f = dispatch_merge_on_key_change[of ?R 1 ext1 "''key''"]
    and d = dispatch_merge_on_key_change[of sched1 1 ext1 "''key''"]
  from t P m obtain s' where s': "dispatch_merge ext1 1 ?P = Inr s'"
    "\<not> keysDidChange (edges s' 1)" "ef s' = (ef ?P)(edge (edges ?P 1) \<mapsto> 2)"
    "edgeIndex s' = edgeIndex ?P"
    by auto
  have fin: "dispatch_finish ext1 1 ?R = Inr s'"
    using f s'(1) pr by simp
  have "dispatch ext1 1 sched1 = Inr s'"
    using d u fin by simp
  with s' P have "\<exists>s'. dispatch ext1 1 sched1 = Inr s' \<and> \<not> keysDidChange (edges s' 1) \<and>
         ef s' (edge edgeA) = Some 2 \<and> edgeIndex s' ''key'' = Some 2"
    by simp
  with first h sched1_merge show ?thesis by simp
qed

end
